theory Spec2Isabelle
  imports Main "HOL-Library.Word"
begin

unbundle bit_operations_syntax

section \<open>libcutils/fs\_config.c: the path rule matcher and the packed rule codec\<close>

subsection \<open>Bytes, C strings and the string functions of libc\<close>

text \<open>
  A byte of memory or of a file is a \<^typ>\<open>char\<close> (eight bits). A C string is modelled by
  the list of the bytes stored at its address: the string ends at the first NUL byte, or at
  the end of the list when the list holds no NUL (the list then stands for the bytes before
  the terminator).
\<close>

abbreviation NUL :: char where
  "NUL \<equiv> CHR 0x00"

definition strlen :: "string \<Rightarrow> nat" where
  "strlen s = length (takeWhile (\<lambda>c. c \<noteq> NUL) s)"

definition strnlen :: "string \<Rightarrow> nat \<Rightarrow> nat" where
  "strnlen s maxlen = length (takeWhile (\<lambda>c. c \<noteq> NUL) (take maxlen s))"

text \<open>
  \<open>strncmp s1 s2 n\<close> compares at most \<open>n\<close> bytes and stops after a NUL; the result is zero
  when no difference was met, and otherwise the difference of the first two bytes that
  differ, read as unsigned.
\<close>

fun strncmp :: "string \<Rightarrow> string \<Rightarrow> nat \<Rightarrow> int" where
  "strncmp [] [] n = 0"
| "strncmp [] (c2 # s2) n = (if n = 0 then 0 else - of_char c2)"
| "strncmp (c1 # s1) [] n = (if n = 0 then 0 else of_char c1)"
| "strncmp (c1 # s1) (c2 # s2) n =
     (if n = 0 then 0
      else if c1 \<noteq> c2 then of_char c1 - of_char c2
      else if c1 = NUL then 0
      else strncmp s1 s2 (n - 1))"

fun strcmp :: "string \<Rightarrow> string \<Rightarrow> int" where
  "strcmp [] [] = 0"
| "strcmp [] (c2 # s2) = - of_char c2"
| "strcmp (c1 # s1) [] = of_char c1"
| "strcmp (c1 # s1) (c2 # s2) =
     (if c1 \<noteq> c2 then of_char c1 - of_char c2
      else if c1 = NUL then 0
      else strcmp s1 s2)"

subsection \<open>fs\_config\_cmp\<close>

text \<open>
  \<open>SIZE_MAX\<close> is the largest \<open>size_t\<close>; \<open>len - 1\<close> on a \<open>size_t\<close> of value 0 wraps to it.
  The value is that of a 64-bit \<open>size_t\<close>; the properties below use only that it is positive,
  so they hold for a 32-bit \<open>size_t\<close> as well.
\<close>

definition SIZE_MAX :: nat where
  "SIZE_MAX = 2 ^ 64 - 1"

definition size_t_pred :: "nat \<Rightarrow> nat" where
  "size_t_pred len = (if len = 0 then SIZE_MAX else len - 1)"

text \<open>
  The byte \<open>prefix[len - 1]\<close>. For \<open>len = 0\<close> the index wraps and the byte read is the one
  stored just before the buffer, which is not part of the prefix: the model takes that byte
  as the parameter \<open>stray\<close>, and every statement below is made for all values of it.
\<close>

definition prefix_last :: "char \<Rightarrow> string \<Rightarrow> nat \<Rightarrow> char" where
  "prefix_last stray prefix len = (if len = 0 then stray else prefix ! (len - 1))"

definition fs_config_cmp :: "char \<Rightarrow> bool \<Rightarrow> string \<Rightarrow> nat \<Rightarrow> string \<Rightarrow> nat \<Rightarrow> bool" where
  "fs_config_cmp stray dir prefix len path plen =
     (if dir then
        (if plen < len then False
         else strncmp prefix path len = 0)
      else
        (if prefix_last stray prefix len = CHR ''*'' then strncmp prefix path (size_t_pred len) = 0
         else if plen \<noteq> len then False
         else strncmp prefix path len = 0))"

subsection \<open>Little-endian integers\<close>

text \<open>
  \<open>get2LE\<close> and \<open>get8LE\<close> read an integer from the bytes at an address, least significant
  byte first. They are only applied to at least two, respectively eight, bytes.
\<close>

definition get2LE :: "string \<Rightarrow> 16 word" where
  "get2LE src = of_char (src ! 0) OR push_bit 8 (of_char (src ! 1))"

definition get8LE :: "string \<Rightarrow> 64 word" where
  "get8LE src =
     (let low :: 32 word = of_char (src ! 0) OR push_bit 8 (of_char (src ! 1)) OR
                 push_bit 16 (of_char (src ! 2)) OR push_bit 24 (of_char (src ! 3));
          high :: 32 word = of_char (src ! 4) OR push_bit 8 (of_char (src ! 5)) OR
                 push_bit 16 (of_char (src ! 6)) OR push_bit 24 (of_char (src ! 7))
      in push_bit 32 (ucast high) OR ucast low)"

text \<open>
  The bytes an integer object occupies in memory. The machine is little-endian, as the
  hosts and devices this code is built for are: byte \<open>i\<close> holds bits \<open>8 i\<close> to \<open>8 i + 7\<close>.
\<close>

definition mem_byte :: "'a::len word \<Rightarrow> nat \<Rightarrow> char" where
  "mem_byte w i = char_of (unat (drop_bit (8 * i) w))"

definition mem_bytes :: "'a::len word \<Rightarrow> nat \<Rightarrow> string" where
  "mem_bytes w n = map (mem_byte w) [0..<n]"

definition ALIGN :: "64 word \<Rightarrow> 64 word \<Rightarrow> 64 word" where
  "ALIGN x alignment = (x + (alignment - 1)) AND NOT (alignment - 1)"

subsection \<open>Rules, in memory and in a packed file\<close>

text \<open>
  Modelled from the spec: \<open>struct fs_path_config\<close>, a rule of the built-in tables, is declared
  in \<open>private/android_filesystem_config.h\<close>, which is not among the sources. The spec gives a
  rule as \<open>prefix\<close>, \<open>mode\<close>, \<open>uid\<close>, \<open>gid\<close> and \<open>capabilities\<close> (a 64-bit mask); the order of
  the fields is that of the initialisers of \<open>android_dirs\<close> and \<open>android_files\<close>. A null
  \<open>prefix\<close> pointer is \<open>None\<close>. The numeric fields are \<open>unsigned\<close>, as the output parameters
  of \<open>fs_config\<close> that receive them.
\<close>

record fs_path_config =
  mode :: "32 word"
  uid :: "32 word"
  gid :: "32 word"
  capabilities :: "64 word"
  prefix :: "string option"

text \<open>
  Modelled from the spec: \<open>struct fs_path_config_from_file\<close> is declared in
  \<open>private/fs_config.h\<close>, which is not among the sources. The spec gives the record layout
  \<open>{ u16 len; u16 mode; u16 uid; u16 gid; u64 capabilities; char prefix[] }\<close>, so the header
  is 16 bytes and the fields lie at offsets 0, 2, 4, 6 and 8. A header is kept as the 16 bytes
  read from the file; the source reads each field from its bytes with \<open>get2LE\<close> or \<open>get8LE\<close>.
\<close>

definition sizeof_header :: nat where
  "sizeof_header = 16"

definition header_len :: "string \<Rightarrow> string" where
  "header_len header = take 2 header"

definition header_mode :: "string \<Rightarrow> string" where
  "header_mode header = take 2 (drop 2 header)"

definition header_uid :: "string \<Rightarrow> string" where
  "header_uid header = take 2 (drop 4 header)"

definition header_gid :: "string \<Rightarrow> string" where
  "header_gid header = take 2 (drop 6 header)"

definition header_capabilities :: "string \<Rightarrow> string" where
  "header_capabilities header = take 8 (drop 8 header)"

subsection \<open>The built-in tables\<close>

text \<open>
  The user and group ids \<open>AID_*\<close>, the capability numbers \<open>CAP_*\<close> and the macro
  \<open>CAP_MASK_LONG\<close> come from \<open>private/android_filesystem_config.h\<close> and the kernel
  headers, which are not among the sources: the tables take their values as a parameter.
\<close>

datatype aid =
  AID_SYSTEM | AID_CACHE | AID_SHELL | AID_DHCP | AID_SHARED_RELRO | AID_MISC | AID_MEDIA_RW
| AID_SDCARD_R | AID_APP | AID_RADIO | AID_LOGD | AID_GRAPHICS | AID_WIFI | AID_BLUETOOTH

datatype capability =
  CAP_BLOCK_SUSPEND | CAP_SYSLOG | CAP_AUDIT_CONTROL | CAP_SETGID | CAP_SETUID | CAP_SYS_NICE
| CAP_NET_ADMIN | CAP_NET_RAW | CAP_SETPCAP

record android_filesystem_config =
  ID :: "aid \<Rightarrow> 32 word"
  CAP_MASK_LONG :: "capability \<Rightarrow> 64 word"

text \<open>
  Modelled from the spec: \<open>AID_ROOT\<close> is declared in the same missing header; the spec gives
  the tail entries of the tables as \<open>{0755, 0, 0, 0, ""}\<close> and \<open>{0644, 0, 0, 0, ""}\<close>, so
  \<open>AID_ROOT\<close> is 0.
\<close>

definition AID_ROOT :: "32 word" where
  "AID_ROOT = 0"

text \<open>An octal mode \<open>0abcd\<close>.\<close>

definition octal :: "nat \<Rightarrow> nat \<Rightarrow> nat \<Rightarrow> nat \<Rightarrow> 32 word" where
  "octal a b c d = of_nat (((a * 8 + b) * 8 + c) * 8 + d)"

definition rule :: "32 word \<Rightarrow> 32 word \<Rightarrow> 32 word \<Rightarrow> 64 word \<Rightarrow> string option \<Rightarrow> fs_path_config" where
  "rule m u g c p = \<lparr>mode = m, uid = u, gid = g, capabilities = c, prefix = p\<rparr>"

definition sys_conf_dir :: string where "sys_conf_dir = ''/system/etc/fs_config_dirs''"
definition sys_conf_file :: string where "sys_conf_file = ''/system/etc/fs_config_files''"
definition ven_conf_dir :: string where "ven_conf_dir = ''/vendor/etc/fs_config_dirs''"
definition ven_conf_file :: string where "ven_conf_file = ''/vendor/etc/fs_config_files''"
definition oem_conf_dir :: string where "oem_conf_dir = ''/oem/etc/fs_config_dirs''"
definition oem_conf_file :: string where "oem_conf_file = ''/oem/etc/fs_config_files''"
definition odm_conf_dir :: string where "odm_conf_dir = ''/odm/etc/fs_config_dirs''"
definition odm_conf_file :: string where "odm_conf_file = ''/odm/etc/fs_config_files''"

text \<open>\<open>conf[which][dir]\<close>: the first component is the file table's side file, the second the
  directory table's.\<close>

definition conf :: "(string \<times> string) list" where
  "conf = [(sys_conf_file, sys_conf_dir), (ven_conf_file, ven_conf_dir),
           (oem_conf_file, oem_conf_dir), (odm_conf_file, odm_conf_dir)]"

definition conf_name :: "nat \<Rightarrow> bool \<Rightarrow> string" where
  "conf_name which dir = (if dir then snd (conf ! which) else fst (conf ! which))"

definition android_dirs :: "android_filesystem_config \<Rightarrow> fs_path_config list" where
  "android_dirs h =
    [rule (octal 0 7 7 0) (ID h AID_SYSTEM) (ID h AID_CACHE) 0 (Some ''cache''),
     rule (octal 0 5 0 0) AID_ROOT AID_ROOT 0 (Some ''config''),
     rule (octal 0 7 7 1) (ID h AID_SYSTEM) (ID h AID_SYSTEM) 0 (Some ''data/app''),
     rule (octal 0 7 7 1) (ID h AID_SYSTEM) (ID h AID_SYSTEM) 0 (Some ''data/app-private''),
     rule (octal 0 7 7 1) (ID h AID_SYSTEM) (ID h AID_SYSTEM) 0 (Some ''data/app-ephemeral''),
     rule (octal 0 7 7 1) AID_ROOT AID_ROOT 0 (Some ''data/dalvik-cache''),
     rule (octal 0 7 7 1) (ID h AID_SYSTEM) (ID h AID_SYSTEM) 0 (Some ''data/data''),
     rule (octal 0 7 7 1) (ID h AID_SHELL) (ID h AID_SHELL) 0 (Some ''data/local/tmp''),
     rule (octal 0 7 7 1) (ID h AID_SHELL) (ID h AID_SHELL) 0 (Some ''data/local''),
     rule (octal 0 7 7 0) (ID h AID_DHCP) (ID h AID_DHCP) 0 (Some ''data/misc/dhcp''),
     rule (octal 0 7 7 1) (ID h AID_SHARED_RELRO) (ID h AID_SHARED_RELRO) 0
       (Some ''data/misc/shared_relro''),
     rule (octal 1 7 7 1) (ID h AID_SYSTEM) (ID h AID_MISC) 0 (Some ''data/misc''),
     rule (octal 0 7 7 5) (ID h AID_MEDIA_RW) (ID h AID_MEDIA_RW) 0 (Some ''data/media/Music''),
     rule (octal 0 7 7 5) (ID h AID_MEDIA_RW) (ID h AID_MEDIA_RW) 0 (Some ''data/media''),
     rule (octal 0 7 5 0) AID_ROOT (ID h AID_SHELL) 0 (Some ''data/nativetest''),
     rule (octal 0 7 5 0) AID_ROOT (ID h AID_SHELL) 0 (Some ''data/nativetest64''),
     rule (octal 0 7 7 5) AID_ROOT AID_ROOT 0 (Some ''data/preloads''),
     rule (octal 0 7 7 1) (ID h AID_SYSTEM) (ID h AID_SYSTEM) 0 (Some ''data''),
     rule (octal 0 7 5 5) AID_ROOT (ID h AID_SYSTEM) 0 (Some ''mnt''),
     rule (octal 0 7 5 5) AID_ROOT AID_ROOT 0 (Some ''root''),
     rule (octal 0 7 5 0) AID_ROOT (ID h AID_SHELL) 0 (Some ''sbin''),
     rule (octal 0 7 7 7) AID_ROOT AID_ROOT 0 (Some ''sdcard''),
     rule (octal 0 7 5 1) AID_ROOT (ID h AID_SDCARD_R) 0 (Some ''storage''),
     rule (octal 0 7 5 5) AID_ROOT (ID h AID_SHELL) 0 (Some ''system/bin''),
     rule (octal 0 7 5 5) AID_ROOT AID_ROOT 0 (Some ''system/etc/ppp''),
     rule (octal 0 7 5 5) AID_ROOT (ID h AID_SHELL) 0 (Some ''system/vendor''),
     rule (octal 0 7 5 5) AID_ROOT (ID h AID_SHELL) 0 (Some ''system/xbin''),
     rule (octal 0 7 5 5) AID_ROOT (ID h AID_SHELL) 0 (Some ''vendor''),
     rule (octal 0 7 5 5) AID_ROOT AID_ROOT 0 None]"

definition android_files :: "android_filesystem_config \<Rightarrow> fs_path_config list" where
  "android_files h =
    [rule (octal 0 6 4 4) (ID h AID_SYSTEM) (ID h AID_SYSTEM) 0 (Some ''data/app/*''),
     rule (octal 0 6 4 4) (ID h AID_SYSTEM) (ID h AID_SYSTEM) 0 (Some ''data/app-ephemeral/*''),
     rule (octal 0 6 4 4) (ID h AID_SYSTEM) (ID h AID_SYSTEM) 0 (Some ''data/app-private/*''),
     rule (octal 0 6 4 4) (ID h AID_APP) (ID h AID_APP) 0 (Some ''data/data/*''),
     rule (octal 0 6 4 4) (ID h AID_MEDIA_RW) (ID h AID_MEDIA_RW) 0 (Some ''data/media/*''),
     rule (octal 0 6 4 0) AID_ROOT (ID h AID_SHELL) 0 (Some ''data/nativetest/tests.txt''),
     rule (octal 0 6 4 0) AID_ROOT (ID h AID_SHELL) 0 (Some ''data/nativetest64/tests.txt''),
     rule (octal 0 7 5 0) AID_ROOT (ID h AID_SHELL) 0 (Some ''data/nativetest/*''),
     rule (octal 0 7 5 0) AID_ROOT (ID h AID_SHELL) 0 (Some ''data/nativetest64/*''),
     rule (octal 0 6 0 0) AID_ROOT AID_ROOT 0 (Some ''default.prop''),
     rule (octal 0 6 0 0) AID_ROOT AID_ROOT 0 (Some ''odm/build.prop''),
     rule (octal 0 6 0 0) AID_ROOT AID_ROOT 0 (Some ''odm/default.prop''),
     rule (octal 0 4 4 4) AID_ROOT AID_ROOT 0 (Some (drop 1 odm_conf_dir)),
     rule (octal 0 4 4 4) AID_ROOT AID_ROOT 0 (Some (drop 1 odm_conf_file)),
     rule (octal 0 4 4 4) AID_ROOT AID_ROOT 0 (Some (drop 1 oem_conf_dir)),
     rule (octal 0 4 4 4) AID_ROOT AID_ROOT 0 (Some (drop 1 oem_conf_file)),
     rule (octal 0 7 5 0) AID_ROOT (ID h AID_SHELL) 0 (Some ''sbin/fs_mgr''),
     rule (octal 0 7 5 5) AID_ROOT (ID h AID_SHELL) 0 (Some ''system/bin/crash_dump32''),
     rule (octal 0 7 5 5) AID_ROOT (ID h AID_SHELL) 0 (Some ''system/bin/crash_dump64''),
     rule (octal 0 7 5 5) AID_ROOT (ID h AID_SHELL) 0 (Some ''system/bin/debuggerd''),
     rule (octal 0 7 5 0) AID_ROOT AID_ROOT 0 (Some ''system/bin/install-recovery.sh''),
     rule (octal 0 7 0 0) AID_ROOT AID_ROOT 0 (Some ''system/bin/secilc''),
     rule (octal 0 7 5 0) AID_ROOT AID_ROOT 0 (Some ''system/bin/uncrypt''),
     rule (octal 0 6 0 0) AID_ROOT AID_ROOT 0 (Some ''system/build.prop''),
     rule (octal 0 4 4 4) AID_ROOT AID_ROOT 0 (Some (drop 1 sys_conf_dir)),
     rule (octal 0 4 4 4) AID_ROOT AID_ROOT 0 (Some (drop 1 sys_conf_file)),
     rule (octal 0 4 4 0) AID_ROOT (ID h AID_SHELL) 0 (Some ''system/etc/init.goldfish.rc''),
     rule (octal 0 5 5 0) AID_ROOT (ID h AID_SHELL) 0 (Some ''system/etc/init.goldfish.sh''),
     rule (octal 0 5 5 0) AID_ROOT (ID h AID_SHELL) 0 (Some ''system/etc/init.ril''),
     rule (octal 0 5 5 5) AID_ROOT AID_ROOT 0 (Some ''system/etc/ppp/*''),
     rule (octal 0 5 5 5) AID_ROOT AID_ROOT 0 (Some ''system/etc/rc.*''),
     rule (octal 0 4 4 0) AID_ROOT AID_ROOT 0 (Some ''system/etc/recovery.img''),
     rule (octal 0 4 4 0) (ID h AID_RADIO) AID_ROOT 0 (Some ''system/etc/xtables.lock''),
     rule (octal 0 6 0 0) AID_ROOT AID_ROOT 0 (Some ''vendor/build.prop''),
     rule (octal 0 6 0 0) AID_ROOT AID_ROOT 0 (Some ''vendor/default.prop''),
     rule (octal 0 4 4 4) AID_ROOT AID_ROOT 0 (Some (drop 1 ven_conf_dir)),
     rule (octal 0 4 4 4) AID_ROOT AID_ROOT 0 (Some (drop 1 ven_conf_file)),
     rule (octal 6 7 5 5) AID_ROOT AID_ROOT 0 (Some ''system/xbin/procmem''),
     rule (octal 4 7 5 0) AID_ROOT (ID h AID_SHELL) 0 (Some ''system/xbin/su''),
     rule (octal 0 7 0 0) (ID h AID_SYSTEM) (ID h AID_SHELL) (CAP_MASK_LONG h CAP_BLOCK_SUSPEND)
       (Some ''system/bin/inputflinger''),
     rule (octal 0 5 5 0) (ID h AID_LOGD) (ID h AID_LOGD)
       (CAP_MASK_LONG h CAP_SYSLOG OR CAP_MASK_LONG h CAP_AUDIT_CONTROL OR
        CAP_MASK_LONG h CAP_SETGID)
       (Some ''system/bin/logd''),
     rule (octal 0 7 5 0) AID_ROOT (ID h AID_SHELL)
       (CAP_MASK_LONG h CAP_SETUID OR CAP_MASK_LONG h CAP_SETGID)
       (Some ''system/bin/run-as''),
     rule (octal 0 7 5 5) (ID h AID_SYSTEM) (ID h AID_GRAPHICS) (CAP_MASK_LONG h CAP_SYS_NICE)
       (Some ''system/bin/surfaceflinger''),
     rule (octal 0 7 5 5) (ID h AID_WIFI) (ID h AID_WIFI)
       (CAP_MASK_LONG h CAP_NET_ADMIN OR CAP_MASK_LONG h CAP_NET_RAW)
       (Some ''system/bin/hostapd''),
     rule (octal 0 7 0 0) (ID h AID_BLUETOOTH) (ID h AID_BLUETOOTH) (CAP_MASK_LONG h CAP_NET_ADMIN)
       (Some ''vendor/bin/hw/android.hardware.bluetooth@1.0-service''),
     rule (octal 0 7 5 5) (ID h AID_WIFI) (ID h AID_WIFI)
       (CAP_MASK_LONG h CAP_NET_ADMIN OR CAP_MASK_LONG h CAP_NET_RAW)
       (Some ''vendor/bin/hw/android.hardware.wifi@1.0-service''),
     rule (octal 0 7 5 0) AID_ROOT AID_ROOT
       (CAP_MASK_LONG h CAP_SETUID OR CAP_MASK_LONG h CAP_SETGID OR CAP_MASK_LONG h CAP_SETPCAP)
       (Some ''system/bin/webview_zygote32''),
     rule (octal 0 7 5 0) AID_ROOT AID_ROOT
       (CAP_MASK_LONG h CAP_SETUID OR CAP_MASK_LONG h CAP_SETGID OR CAP_MASK_LONG h CAP_SETPCAP)
       (Some ''system/bin/webview_zygote64''),
     rule (octal 0 7 5 5) AID_ROOT AID_ROOT 0 (Some ''bin/*''),
     rule (octal 0 6 4 0) AID_ROOT (ID h AID_SHELL) 0 (Some ''fstab.*''),
     rule (octal 0 7 5 0) AID_ROOT (ID h AID_SHELL) 0 (Some ''init*''),
     rule (octal 0 7 5 0) AID_ROOT (ID h AID_SHELL) 0 (Some ''sbin/*''),
     rule (octal 0 7 5 5) AID_ROOT (ID h AID_SHELL) 0 (Some ''system/bin/*''),
     rule (octal 0 7 5 5) AID_ROOT AID_ROOT 0 (Some ''system/lib/valgrind/*''),
     rule (octal 0 7 5 5) AID_ROOT AID_ROOT 0 (Some ''system/lib64/valgrind/*''),
     rule (octal 0 7 5 5) AID_ROOT (ID h AID_SHELL) 0 (Some ''system/vendor/bin/*''),
     rule (octal 0 7 5 5) AID_ROOT (ID h AID_SHELL) 0 (Some ''system/vendor/xbin/*''),
     rule (octal 0 7 5 5) AID_ROOT (ID h AID_SHELL) 0 (Some ''system/xbin/*''),
     rule (octal 0 7 5 5) AID_ROOT (ID h AID_SHELL) 0 (Some ''vendor/bin/*''),
     rule (octal 0 7 5 5) AID_ROOT (ID h AID_SHELL) 0 (Some ''vendor/xbin/*''),
     rule (octal 0 6 4 4) AID_ROOT AID_ROOT 0 None]"

subsection \<open>The environment of the matcher\<close>

text \<open>
  What the matcher sees of the system it runs on: \<open>open_file name\<close> is the content of the
  file that \<open>open(name, O_RDONLY)\<close> gives access to, or \<open>None\<close> when the call fails;
  \<open>alloc_ok n\<close> says whether an allocation of \<open>n\<close> bytes succeeds (every buffer is freed
  before the next one is requested); \<open>stray_byte\<close> is the byte stored in front of an allocated
  buffer. A \<open>read\<close> of \<open>n\<close> bytes returns \<open>n\<close> bytes when the file has them, and fewer
  otherwise.
\<close>

record system =
  open_file :: "string \<Rightarrow> string option"
  alloc_ok :: "nat \<Rightarrow> bool"
  stray_byte :: char

subsection \<open>fs\_config\_open\<close>

text \<open>The loop that steps \<open>target_out_path_len\<close> back over trailing slashes.\<close>

fun strip_trailing_slashes :: "string \<Rightarrow> nat \<Rightarrow> nat" where
  "strip_trailing_slashes target_out_path 0 = 0"
| "strip_trailing_slashes target_out_path (Suc n) =
     (if target_out_path ! n = CHR ''/'' then strip_trailing_slashes target_out_path n
      else Suc n)"

text \<open>The name built by \<open>asprintf(&name, "%.*s%s", target_out_path_len, target_out_path, conf[which][dir])\<close>.\<close>

definition target_name :: "string \<Rightarrow> string \<Rightarrow> string" where
  "target_name target_out_path conf_file =
     (let target_out_path_len = strip_trailing_slashes target_out_path (strlen target_out_path);
          target_out_path_len =
            (if target_out_path_len \<ge> strlen ''/system'' \<and>
                strcmp (drop (target_out_path_len - strlen ''/system'') target_out_path) ''/system'' = 0
             then target_out_path_len - strlen ''/system''
             else target_out_path_len)
      in take target_out_path_len target_out_path @ conf_file)"

text \<open>The result is the content of the file behind the returned descriptor, \<open>None\<close> for \<open>fd < 0\<close>.
  A null \<open>target_out_path\<close> is \<open>None\<close>.\<close>

definition fs_config_open :: "system \<Rightarrow> bool \<Rightarrow> nat \<Rightarrow> string option \<Rightarrow> string option" where
  "fs_config_open sys dir which target_out_path =
     (let fd =
        (case target_out_path of
           None \<Rightarrow> None
         | Some target \<Rightarrow>
             if strlen target = 0 then None
             else
               let name = target_name target (conf_name which dir)
               in if alloc_ok sys (length name + 1) then open_file sys name else None)
      in case fd of
           Some content \<Rightarrow> Some content
         | None \<Rightarrow> open_file sys (conf_name which dir))"

text \<open>
  The prefix in the words of the claim: \<open>target_out_path\<close> with all trailing slashes removed
  and then a trailing \<open>/system\<close> removed when present.
\<close>

definition claimed_target_prefix :: "string \<Rightarrow> string" where
  "claimed_target_prefix target_out_path =
     (let stripped = rev (dropWhile (\<lambda>c. c = CHR ''/'') (rev target_out_path))
      in if length stripped \<ge> length ''/system'' \<and>
            drop (length stripped - length ''/system'') stripped = ''/system''
         then take (length stripped - length ''/system'') stripped
         else stripped)"

subsection \<open>fs\_config\<close>

text \<open>Why the loop over the records of one packed file ended without a match.\<close>

datatype scan_end = End_of_file | Len_corrupted | Out_of_memory | Prefix_truncated | Not_terminated

text \<open>
  One turn of the \<open>while\<close> loop up to the comparison: the header is read, then the prefix.
  The result is the header, the prefix buffer, the length \<open>len\<close> of the prefix and the rest
  of the file.
\<close>

definition read_record :: "system \<Rightarrow> string \<Rightarrow> scan_end + (string \<times> string \<times> nat \<times> string)" where
  "read_record sys content =
     (if length content < sizeof_header then Inl End_of_file
      else
        let header = take sizeof_header content;
            host_len = get2LE (header_len header);
            remainder = int (unat host_len) - int sizeof_header
        in if remainder \<le> 0 then Inl Len_corrupted
           else if \<not> alloc_ok sys (nat remainder) then Inl Out_of_memory
           else if length (drop sizeof_header content) < nat remainder then Inl Prefix_truncated
           else
             let pfx = take (nat remainder) (drop sizeof_header content);
                 len = strnlen pfx (nat remainder)
             in if int len \<ge> remainder then Inl Not_terminated
                else Inr (header, pfx, len, drop (sizeof_header + nat remainder) content))"

lemma read_record_shorter:
  "read_record sys content = Inr (header, pfx, len, rest) \<Longrightarrow> length rest < length content"
  by (auto simp: read_record_def Let_def sizeof_header_def split: if_splits)

text \<open>The \<open>while\<close> loop over the records of one packed file; on a match the header is returned.\<close>

function fs_config_file_loop :: "system \<Rightarrow> bool \<Rightarrow> string \<Rightarrow> nat \<Rightarrow> string \<Rightarrow> scan_end + string" where
  "fs_config_file_loop sys dir path plen content =
     (case read_record sys content of
        Inl e \<Rightarrow> Inl e
      | Inr (header, pfx, len, rest) \<Rightarrow>
          if fs_config_cmp (stray_byte sys) dir pfx len path plen then Inr header
          else fs_config_file_loop sys dir path plen rest)"
  by pat_completeness auto
termination
  by (relation "measure (\<lambda>(sys, dir, path, plen, content). length content)")
     (auto dest: read_record_shorter)

declare fs_config_file_loop.simps [simp del]

text \<open>The \<open>for\<close> loop over \<open>conf\<close>, from index \<open>which\<close> on.\<close>

function fs_config_conf_loop ::
  "system \<Rightarrow> bool \<Rightarrow> string option \<Rightarrow> string \<Rightarrow> nat \<Rightarrow> nat \<Rightarrow> string option" where
  "fs_config_conf_loop sys dir target_out_path path plen which =
     (if which < length conf then
        (case fs_config_open sys dir which target_out_path of
           None \<Rightarrow> fs_config_conf_loop sys dir target_out_path path plen (which + 1)
         | Some content \<Rightarrow>
             (case fs_config_file_loop sys dir path plen content of
                Inr header \<Rightarrow> Some header
              | Inl e \<Rightarrow> fs_config_conf_loop sys dir target_out_path path plen (which + 1)))
      else None)"
  by pat_completeness auto
termination
  by (relation "measure (\<lambda>(sys, dir, target_out_path, path, plen, which). length conf - which)")
     auto

declare fs_config_conf_loop.simps [simp del]

text \<open>
  The scan of a built-in table, \<open>for (pc = ...; pc->prefix; pc++)\<close>: the result is the entry
  \<open>pc\<close> points to when the loop ends, or \<open>None\<close> when the loop runs off the end of the array.
\<close>

fun fs_config_table_loop ::
  "char \<Rightarrow> bool \<Rightarrow> string \<Rightarrow> nat \<Rightarrow> fs_path_config list \<Rightarrow> fs_path_config option" where
  "fs_config_table_loop stray dir path plen [] = None"
| "fs_config_table_loop stray dir path plen (pc # pcs) =
     (case prefix pc of
        None \<Rightarrow> Some pc
      | Some pfx \<Rightarrow>
          if fs_config_cmp stray dir pfx (strlen pfx) path plen then Some pc
          else fs_config_table_loop stray dir path plen pcs)"

text \<open>The step \<open>if (path[0] == '/') path++\<close>.\<close>

definition skip_leading_slash :: "string \<Rightarrow> string" where
  "skip_leading_slash path = (case path of c # cs \<Rightarrow> if c = CHR ''/'' then cs else path | [] \<Rightarrow> path)"

datatype error = ENOSPC | Array_overrun | Null_prefix

text \<open>
  The result is the tuple \<open>(uid, gid, mode, capabilities)\<close> left in the output parameters;
  the argument \<open>mode0\<close> is the value of \<open>*mode\<close> at the call.
\<close>

definition fs_config ::
  "android_filesystem_config \<Rightarrow> system \<Rightarrow> string \<Rightarrow> bool \<Rightarrow> string option \<Rightarrow> 32 word
     \<Rightarrow> error + (32 word \<times> 32 word \<times> 32 word \<times> 64 word)" where
  "fs_config h sys path0 dir target_out_path mode0 =
     (let path = skip_leading_slash path0;
          plen = strlen path
      in case fs_config_conf_loop sys dir target_out_path path plen 0 of
           Some header \<Rightarrow>
             Inr (ucast (get2LE (header_uid header)),
                  ucast (get2LE (header_gid header)),
                  (mode0 AND NOT (octal 7 7 7 7)) OR ucast (get2LE (header_mode header)),
                  get8LE (header_capabilities header))
         | None \<Rightarrow>
             (case fs_config_table_loop (stray_byte sys) dir path plen
                     (if dir then android_dirs h else android_files h) of
                None \<Rightarrow> Inl Array_overrun
              | Some pc \<Rightarrow>
                  Inr (uid pc, gid pc, (mode0 AND NOT (octal 7 7 7 7)) OR mode pc, capabilities pc)))"

subsection \<open>The calls of fs\_config\_cmp\<close>

text \<open>
  The arguments \<open>(prefix, len)\<close> of the calls of \<open>fs_config_cmp\<close> that a run of \<open>fs_config\<close>
  makes, in the order of the calls: the loops above, with each call recorded.
\<close>

function fs_config_file_loop_calls ::
  "system \<Rightarrow> bool \<Rightarrow> string \<Rightarrow> nat \<Rightarrow> string \<Rightarrow> (string \<times> nat) list" where
  "fs_config_file_loop_calls sys dir path plen content =
     (case read_record sys content of
        Inl e \<Rightarrow> []
      | Inr (header, pfx, len, rest) \<Rightarrow>
          (pfx, len) #
          (if fs_config_cmp (stray_byte sys) dir pfx len path plen then []
           else fs_config_file_loop_calls sys dir path plen rest))"
  by pat_completeness auto
termination
  by (relation "measure (\<lambda>(sys, dir, path, plen, content). length content)")
     (auto dest: read_record_shorter)

declare fs_config_file_loop_calls.simps [simp del]

function fs_config_conf_loop_calls ::
  "system \<Rightarrow> bool \<Rightarrow> string option \<Rightarrow> string \<Rightarrow> nat \<Rightarrow> nat \<Rightarrow> (string \<times> nat) list" where
  "fs_config_conf_loop_calls sys dir target_out_path path plen which =
     (if which < length conf then
        (case fs_config_open sys dir which target_out_path of
           None \<Rightarrow> fs_config_conf_loop_calls sys dir target_out_path path plen (which + 1)
         | Some content \<Rightarrow>
             fs_config_file_loop_calls sys dir path plen content @
             (case fs_config_file_loop sys dir path plen content of
                Inr header \<Rightarrow> []
              | Inl e \<Rightarrow> fs_config_conf_loop_calls sys dir target_out_path path plen (which + 1)))
      else [])"
  by pat_completeness auto
termination
  by (relation "measure (\<lambda>(sys, dir, target_out_path, path, plen, which). length conf - which)")
     auto

declare fs_config_conf_loop_calls.simps [simp del]

fun fs_config_table_loop_calls ::
  "char \<Rightarrow> bool \<Rightarrow> string \<Rightarrow> nat \<Rightarrow> fs_path_config list \<Rightarrow> (string \<times> nat) list" where
  "fs_config_table_loop_calls stray dir path plen [] = []"
| "fs_config_table_loop_calls stray dir path plen (pc # pcs) =
     (case prefix pc of
        None \<Rightarrow> []
      | Some pfx \<Rightarrow>
          (pfx, strlen pfx) #
          (if fs_config_cmp stray dir pfx (strlen pfx) path plen then []
           else fs_config_table_loop_calls stray dir path plen pcs))"

definition fs_config_cmp_calls ::
  "android_filesystem_config \<Rightarrow> system \<Rightarrow> string \<Rightarrow> bool \<Rightarrow> string option \<Rightarrow> (string \<times> nat) list" where
  "fs_config_cmp_calls h sys path0 dir target_out_path =
     (let path = skip_leading_slash path0;
          plen = strlen path
      in fs_config_conf_loop_calls sys dir target_out_path path plen 0 @
         (case fs_config_conf_loop sys dir target_out_path path plen 0 of
            Some header \<Rightarrow> []
          | None \<Rightarrow>
              fs_config_table_loop_calls (stray_byte sys) dir path plen
                (if dir then android_dirs h else android_files h)))"

subsection \<open>fs\_config\_generate\<close>

definition UINT16_MAX :: "64 word" where
  "UINT16_MAX = 65535"

text \<open>
  The result is \<open>Inl ENOSPC\<close> for the return value \<open>-ENOSPC\<close>; otherwise it is the bytes
  written to the front of the buffer, whose number is the return value. \<open>length0\<close> is the
  size of the buffer.
\<close>

definition fs_config_generate :: "nat \<Rightarrow> fs_path_config \<Rightarrow> error + string" where
  "fs_config_generate length0 pc =
     (case prefix pc of
        None \<Rightarrow> Inl Null_prefix
      | Some pfx \<Rightarrow>
          let len = ALIGN (of_nat (sizeof_header + strlen pfx + 1)) 8
          in if length0 < unat len \<or> len > UINT16_MAX then Inl ENOSPC
             else
               let host_len :: 16 word = ucast len;
                   p_len = get2LE (mem_bytes host_len 2);
                   p_mode = get2LE (mem_bytes (mode pc) 4);
                   p_uid = get2LE (mem_bytes (uid pc) 4);
                   p_gid = get2LE (mem_bytes (gid pc) 4);
                   p_capabilities = get8LE (mem_bytes (capabilities pc) 8);
                   p_prefix = take (strlen pfx) pfx
               in Inr (mem_bytes p_len 2 @ mem_bytes p_mode 2 @ mem_bytes p_uid 2 @
                       mem_bytes p_gid 2 @ mem_bytes p_capabilities 8 @ p_prefix @
                       replicate (unat len - sizeof_header - strlen pfx) NUL))"

subsection \<open>The rule a packed record stands for\<close>

text \<open>
  The rule that the matcher reads from the record at the front of a packed file: the numeric
  fields are the values that \<open>fs_config\<close> assigns on a match (\<open>get2LE\<close> and \<open>get8LE\<close> of the
  header's bytes, widened to \<open>unsigned\<close>), and the prefix is the string that \<open>fs_config_cmp\<close>
  is given, the \<open>len\<close> bytes of the prefix buffer in front of the first NUL.
\<close>

definition decode_record :: "system \<Rightarrow> string \<Rightarrow> scan_end + fs_path_config" where
  "decode_record sys content =
     (case read_record sys content of
        Inl e \<Rightarrow> Inl e
      | Inr (header, pfx, len, rest) \<Rightarrow>
          Inr \<lparr>mode = ucast (get2LE (header_mode header)),
               uid = ucast (get2LE (header_uid header)),
               gid = ucast (get2LE (header_gid header)),
               capabilities = get8LE (header_capabilities header),
               prefix = Some (take len pfx)\<rparr>)"

text \<open>
  \<open>Decode(Encode(r))\<close>: the rule \<open>r\<close> is written by \<open>fs_config_generate\<close> into a buffer of
  \<open>length0\<close> bytes and the bytes written are read back as a record; \<open>None\<close> when either step
  fails.
\<close>

definition encode_decode :: "nat \<Rightarrow> system \<Rightarrow> fs_path_config \<Rightarrow> fs_path_config option" where
  "encode_decode length0 sys r =
     (case fs_config_generate length0 r of
        Inl e \<Rightarrow> None
      | Inr bytes \<Rightarrow> (case decode_record sys bytes of Inl e \<Rightarrow> None | Inr r' \<Rightarrow> Some r'))"

subsection \<open>Corrupt records\<close>

text \<open>
  A corrupt record, in the words of the spec: the bytes at the current position of a packed
  file hold a header, and the length it declares is at most the size of the header, or more
  bytes than the file has left, or the prefix bytes it covers hold no NUL.
\<close>

definition corrupt_record :: "string \<Rightarrow> bool" where
  "corrupt_record content \<longleftrightarrow>
     length content \<ge> sizeof_header \<and>
     (let declared = unat (get2LE (header_len (take sizeof_header content)))
      in declared \<le> sizeof_header \<or>
         length content < declared \<or>
         NUL \<notin> set (take (declared - sizeof_header) (drop sizeof_header content)))"

section \<open>init/ueventd.cpp: cold boot\<close>

subsection \<open>The environment of the daemon\<close>

text \<open>
  The status that \<open>waitpid\<close> stores, by the macro of \<open>sys/wait.h\<close> that holds for it:
  \<open>WIFEXITED\<close> with \<open>WEXITSTATUS\<close>, \<open>WIFSIGNALED\<close> with \<open>WTERMSIG\<close>, or neither.
\<close>

datatype wait_status = Exited nat | Signaled nat | Neither

definition EXIT_SUCCESS :: nat where
  "EXIT_SUCCESS = 0"

text \<open>
  What the daemon meets when it runs: the value of \<open>std::thread::hardware_concurrency()\<close>;
  whether \<open>access(COLDBOOT_DONE, F_OK)\<close> finds the marker; the uevents that
  \<open>RegenerateUevents\<close> hands to its callback; the value returned by the \<open>k\<close>-th call of
  \<open>fork\<close>; the pid and status of the successive calls of \<open>waitpid(-1, &status, 0)\<close> that
  return (after the last of them the call blocks for ever); and the value returned by
  \<open>open(COLDBOOT_DONE, ...)\<close>.
\<close>

record 'u environment =
  hardware_concurrency :: "32 word"
  marker_found :: bool
  regenerated :: "'u list"
  fork_result :: "nat \<Rightarrow> int"
  wait_results :: "(int \<times> wait_status) list"
  open_result :: int

subsection \<open>The events of a run\<close>

datatype open_flag = O_WRONLY | O_CREAT | O_CLOEXEC

text \<open>
  The calls of the coordinating process that the properties below speak of, in the order it makes
  them: a \<open>fork\<close> that returned the pid of a new child; the return of the recursive
  \<open>selinux_android_restorecon\<close> of \<open>/sys\<close>; a \<open>waitpid\<close> upon whose return a subprocess
  was erased from \<open>subprocess_pids_\<close>, with the pid it returned and the status it stored;
  the \<open>open\<close> of the completion marker with its flags, its mode and its result; the \<open>close\<close>
  of that result.
\<close>

datatype event =
  Forked int
| Restorecon_sys
| Reaped int wait_status
| Open_marker "open_flag set" nat int
| Close int

text \<open>How a run ends short of returning.\<close>

datatype halt =
  Fatal                    \<comment> \<open>\<open>LOG(FATAL)\<close> or \<open>PLOG(FATAL)\<close>: the process aborts\<close>
| Child_exit "nat list"    \<comment> \<open>the process is a forked child: it handles its share and calls \<open>_exit(EXIT_SUCCESS)\<close>\<close>
| Child_loops              \<comment> \<open>the process is a forked child whose loop does not end\<close>
| Waiting                  \<comment> \<open>\<open>waitpid\<close> does not return any more\<close>

datatype 's result = Done 's | Halt halt 's

text \<open>The state in which a run ended.\<close>

fun state_of :: "'s result \<Rightarrow> 's" where
  "state_of (Done s) = s"
| "state_of (Halt h s) = s"

text \<open>The events that are an \<open>open\<close> of the completion marker.\<close>

fun is_open_marker :: "event \<Rightarrow> bool" where
  "is_open_marker (Open_marker flags mode0 fd) = True"
| "is_open_marker e = False"

text \<open>The marker comes into being by an \<open>open\<close> with \<open>O_CREAT\<close> that succeeds.\<close>

fun creates_marker :: "event \<Rightarrow> bool" where
  "creates_marker (Open_marker flags mode0 fd) = (O_CREAT \<in> flags \<and> 0 \<le> fd)"
| "creates_marker e = False"

subsection \<open>class ColdBoot\<close>

record 'u ColdBoot =
  num_handler_subprocesses :: "32 word"
  uevent_queue :: "'u list"
  subprocess_pids :: "int set"
  skip_restorecon :: bool
  trace :: "event list"

text \<open>The constructor; the device handler is created with \<open>skip_restorecon\<close> set.\<close>

definition ColdBoot_init :: "'u environment \<Rightarrow> 'u ColdBoot" where
  "ColdBoot_init env =
     \<lparr>num_handler_subprocesses =
        (if hardware_concurrency env \<noteq> 0 then hardware_concurrency env else 4),
      uevent_queue = [], subprocess_pids = {}, skip_restorecon = True, trace = []\<rparr>"

text \<open>
  \<open>UeventHandlerMain\<close>: the loop \<open>for (unsigned int i = process_num; i < uevent_queue_.size();
  i += total_processes)\<close>. The counter is an \<open>unsigned int\<close> and wraps; the result is the list
  of the positions \<open>i\<close> whose uevent was handed to \<open>HandleDeviceEvent\<close>, in that order, and
  \<open>None\<close> when the loop does not end.
\<close>

partial_function (option) UeventHandlerMain_loop ::
  "nat \<Rightarrow> 32 word \<Rightarrow> 32 word \<Rightarrow> nat list \<Rightarrow> nat list option" where
  "UeventHandlerMain_loop size0 total_processes i handled =
     (if unat i < size0
      then UeventHandlerMain_loop size0 total_processes (i + total_processes) (handled @ [unat i])
      else Some handled)"

definition UeventHandlerMain :: "'u list \<Rightarrow> 32 word \<Rightarrow> 32 word \<Rightarrow> nat list option" where
  "UeventHandlerMain queue process_num total_processes =
     UeventHandlerMain_loop (length queue) total_processes process_num []"

text \<open>\<open>RegenerateUevents\<close>: the callback appends every uevent to the queue.\<close>

definition RegenerateUevents :: "'u environment \<Rightarrow> 'u ColdBoot \<Rightarrow> 'u ColdBoot" where
  "RegenerateUevents env s = s\<lparr>uevent_queue := uevent_queue s @ regenerated env\<rparr>"

lemma word_less_Suc_unat:
  assumes "(i :: 32 word) < n"
  shows "unat (i + 1) = Suc (unat i)"
proof -
  have "unat i < unat n"
    using assms by (simp add: word_less_nat_alt)
  moreover have "unat n < 2 ^ 32"
    using unsigned_less [of n] by simp
  ultimately have "unat i + 1 < 2 ^ 32"
    by simp
  then show ?thesis
    by (simp add: unat_word_ariths)
qed

text \<open>
  The loop of \<open>ForkSubProcesses\<close>; \<open>fork k\<close> is the value that the \<open>k\<close>-th call of \<open>fork\<close>
  returns.
\<close>

function ForkSubProcesses_loop :: "(nat \<Rightarrow> int) \<Rightarrow> 32 word \<Rightarrow> 'u ColdBoot \<Rightarrow> 'u ColdBoot result" where
  "ForkSubProcesses_loop fork i s =
     (if i < num_handler_subprocesses s then
        (let pid = fork (unat i)
         in if pid < 0 then Halt Fatal s
            else if pid = 0 then
              (case UeventHandlerMain (uevent_queue s) i (num_handler_subprocesses s) of
                 Some handled \<Rightarrow> Halt (Child_exit handled) s
               | None \<Rightarrow> Halt Child_loops s)
            else ForkSubProcesses_loop fork (i + 1)
                   (s\<lparr>subprocess_pids := insert pid (subprocess_pids s),
                      trace := trace s @ [Forked pid]\<rparr>))
      else Done s)"
  by pat_completeness auto
termination
  by (relation "measure (\<lambda>(fork, i, s). unat (num_handler_subprocesses s) - unat i)")
     (auto simp: word_less_nat_alt word_less_Suc_unat)

declare ForkSubProcesses_loop.simps [simp del]

definition ForkSubProcesses :: "'u environment \<Rightarrow> 'u ColdBoot \<Rightarrow> 'u ColdBoot result" where
  "ForkSubProcesses env s = ForkSubProcesses_loop (fork_result env) 0 s"

definition DoRestoreCon :: "'u ColdBoot \<Rightarrow> 'u ColdBoot" where
  "DoRestoreCon s = s\<lparr>skip_restorecon := False, trace := trace s @ [Restorecon_sys]\<rparr>"

text \<open>
  \<open>WaitForSubProcesses\<close>; the first argument is the list of the results of the calls of
  \<open>waitpid\<close> still to come.
\<close>

fun WaitForSubProcesses_loop :: "(int \<times> wait_status) list \<Rightarrow> 'u ColdBoot \<Rightarrow> 'u ColdBoot result" where
  "WaitForSubProcesses_loop [] s =
     (if subprocess_pids s = {} then Done s else Halt Waiting s)"
| "WaitForSubProcesses_loop ((pid, status) # waits) s =
     (if subprocess_pids s = {} then Done s
      else if pid = - 1 then WaitForSubProcesses_loop waits s
      else if pid \<notin> subprocess_pids s then WaitForSubProcesses_loop waits s
      else
        (case status of
           Exited code \<Rightarrow>
             if code = EXIT_SUCCESS then
               WaitForSubProcesses_loop waits
                 (s\<lparr>subprocess_pids := subprocess_pids s - {pid},
                    trace := trace s @ [Reaped pid status]\<rparr>)
             else Halt Fatal s
         | Signaled sig \<Rightarrow> Halt Fatal s
         | Neither \<Rightarrow> WaitForSubProcesses_loop waits s))"

definition WaitForSubProcesses :: "'u environment \<Rightarrow> 'u ColdBoot \<Rightarrow> 'u ColdBoot result" where
  "WaitForSubProcesses env s = WaitForSubProcesses_loop (wait_results env) s"

text \<open>\<open>ColdBoot::Run\<close>; the timer and the log line are left out.\<close>

definition Run :: "'u environment \<Rightarrow> 'u ColdBoot \<Rightarrow> 'u ColdBoot result" where
  "Run env s =
     (case ForkSubProcesses env (RegenerateUevents env s) of
        Halt h s' \<Rightarrow> Halt h s'
      | Done s' \<Rightarrow>
          (case WaitForSubProcesses env (DoRestoreCon s') of
             Halt h s'' \<Rightarrow> Halt h s''
           | Done s'' \<Rightarrow>
               Done (s''\<lparr>trace := trace s'' @
                       [Open_marker {O_WRONLY, O_CREAT, O_CLOEXEC} 0 (open_result env),
                        Close (open_result env)]\<rparr>)))"

text \<open>
  \<open>ueventd_main\<close> from the test for the marker on. \<open>Poll\<close> does not return: a daemon that
  reaches it is in the steady-state loop.
\<close>

datatype daemon = Polling | Halted halt

definition ueventd_main :: "'u environment \<Rightarrow> daemon \<times> event list" where
  "ueventd_main env =
     (if \<not> marker_found env then
        (case Run env (ColdBoot_init env) of
           Halt h s \<Rightarrow> (Halted h, trace s)
         | Done s \<Rightarrow> (Polling, trace s))
      else (Polling, []))"

section \<open>Example inputs\<close>

text \<open>A choice of ids and capability masks, and a system on which no packed file can be opened.\<close>

definition h0 :: android_filesystem_config where
  "h0 = \<lparr>ID = (\<lambda>a. 1000), CAP_MASK_LONG = (\<lambda>c. 1)\<rparr>"

definition no_files :: system where
  "no_files = \<lparr>open_file = (\<lambda>name. None), alloc_ok = (\<lambda>n. True), stray_byte = NUL\<rparr>"

text \<open>
  A packed file of one record, 24 bytes long: \<open>len\<close> 24, mode 0644, uid 0, gid 0, no
  capabilities, and the empty prefix, padded with NUL to the 8-byte boundary.
\<close>

definition empty_prefix_record :: string where
  "empty_prefix_record =
     [CHR 0x18, NUL, CHR 0xA4, CHR 0x01, NUL, NUL, NUL, NUL] @ replicate 8 NUL @ replicate 8 NUL"

text \<open>A system whose \<open>/system/etc/fs_config_files\<close> is that file and that has no other packed file.\<close>

definition empty_prefix_system :: system where
  "empty_prefix_system =
     \<lparr>open_file = (\<lambda>name. if name = ''/system/etc/fs_config_files'' then Some empty_prefix_record
                            else None),
      alloc_ok = (\<lambda>n. True), stray_byte = NUL\<rparr>"

text \<open>
  A packed file of one record, 24 bytes long, for the prefix \<open>x\<close>: mode 0600, uid 1, gid 2,
  no capabilities.
\<close>

definition x_record :: string where
  "x_record =
     [CHR 0x18, NUL, CHR 0x80, CHR 0x01, CHR 0x01, NUL, CHR 0x02, NUL] @ replicate 8 NUL @
     [CHR ''x'', NUL, NUL, NUL, NUL, NUL, NUL, NUL]"

text \<open>
  A system whose \<open>/system/etc/fs_config_files\<close> holds the record with the empty prefix
  followed by a header of 16 zero bytes, which declares the length 0, and whose
  \<open>/vendor/etc/fs_config_files\<close> holds the record for \<open>x\<close>.
\<close>

definition corrupt_then_vendor :: system where
  "corrupt_then_vendor =
     \<lparr>open_file = (\<lambda>name. if name = ''/system/etc/fs_config_files''
                            then Some (empty_prefix_record @ replicate 16 NUL)
                          else if name = ''/vendor/etc/fs_config_files'' then Some x_record
                          else None),
      alloc_ok = (\<lambda>n. True), stray_byte = NUL\<rparr>"

text \<open>A build tree that holds the packed file for files under \<open>out\<close>, on a host without one.\<close>

definition build_tree :: system where
  "build_tree =
     \<lparr>open_file = (\<lambda>name. if name = ''out/system/etc/fs_config_files'' then Some [] else None),
      alloc_ok = (\<lambda>n. True), stray_byte = NUL\<rparr>"

text \<open>
  A cold boot on a machine of hardware concurrency 2: three uevents are queued, the two forks
  give the children 101 and 102, both exit with status 0, and the \<open>open\<close> of the marker
  returns the descriptor 5.
\<close>

definition boot2 :: "string environment" where
  "boot2 =
     \<lparr>hardware_concurrency = 2, marker_found = False, regenerated = [''a'', ''b'', ''c''],
      fork_result = (\<lambda>k. 101 + int k), wait_results = [(102, Exited 0), (101, Exited 0)],
      open_result = 5\<rparr>"

section \<open>Properties of the matcher\<close>

lemma of_char_int_eq_0_iff: "(of_char c :: int) = 0 \<longleftrightarrow> c = NUL"
proof -
  have "(of_char NUL :: int) = 0" by simp
  then show ?thesis by (metis of_char_eq_iff)
qed

lemma strncmp_eq0_iff:
  assumes "NUL \<notin> set r" and "n \<le> length r"
  shows "strncmp r p n = 0 \<longleftrightarrow> take n p = take n r"
  using assms
proof (induction r p n rule: strncmp.induct)
  case (1 n)
  then show ?case by simp
next
  case (2 c2 s2 n)
  then show ?case by simp
next
  case (3 c1 s1 n)
  then show ?case by (cases n) (auto simp: of_char_int_eq_0_iff)
next
  case (4 c1 s1 c2 s2 n)
  then show ?case by (cases n) (auto simp: of_char_int_eq_0_iff)
qed

lemma strncmp_Nil_left:
  "NUL \<notin> set p \<Longrightarrow> n > 0 \<Longrightarrow> strncmp [] p n = 0 \<longleftrightarrow> p = []"
  by (cases p) (auto simp: of_char_int_eq_0_iff)

text \<open>
  Claim C2. For a rule prefix \<open>r\<close> and a path \<open>p\<close> (C strings, so without NUL, of lengths
  \<open>rlen\<close> and \<open>plen\<close>), \<open>fs_config_cmp\<close> matches as follows: with the directory flag set, iff
  \<open>plen \<ge> rlen\<close> and the first \<open>rlen\<close> characters of \<open>p\<close> are \<open>r\<close>; with the flag clear and
  \<open>r\<close> ending in \<open>*\<close>, iff the first \<open>rlen - 1\<close> characters of \<open>p\<close> and of \<open>r\<close> agree;
  otherwise iff \<open>plen = rlen\<close> and \<open>p = r\<close>. This holds whatever byte precedes the prefix
  buffer, also for the empty prefix.
\<close>

theorem fs_config_cmp_spec:
  assumes "NUL \<notin> set r" and "NUL \<notin> set p"
  shows "fs_config_cmp stray dir r (length r) p (length p) \<longleftrightarrow>
     (if dir then length r \<le> length p \<and> take (length r) p = r
      else if r \<noteq> [] \<and> last r = CHR ''*'' then take (length r - 1) p = take (length r - 1) r
      else length p = length r \<and> p = r)"
proof (cases dir)
  case True
  then show ?thesis
    using assms by (auto simp: fs_config_cmp_def strncmp_eq0_iff)
next
  case False
  show ?thesis
  proof (cases "r = []")
    case True
    with False assms show ?thesis
      by (auto simp: fs_config_cmp_def prefix_last_def size_t_pred_def SIZE_MAX_def strncmp_Nil_left)
  next
    case nonempty: False
    then have "prefix_last stray r (length r) = last r"
      by (simp add: prefix_last_def last_conv_nth)
    moreover have "size_t_pred (length r) = length r - 1"
      using nonempty by (simp add: size_t_pred_def)
    ultimately show ?thesis
      using False nonempty assms by (auto simp: fs_config_cmp_def strncmp_eq0_iff)
  qed
qed

theorem fs_config_cmp_spec_witness:
  "NUL \<notin> set ''system/bin/*'' \<and> NUL \<notin> set ''system/bin/ls'' \<and>
   fs_config_cmp NUL False ''system/bin/*'' (length ''system/bin/*'')
     ''system/bin/ls'' (length ''system/bin/ls'')"
  using fs_config_cmp_spec [of "''system/bin/*''" "''system/bin/ls''" NUL False]
  by simp

lemma strlen_eq_0_iff: "strlen s = 0 \<longleftrightarrow> s = [] \<or> hd s = NUL"
  by (cases s) (auto simp: strlen_def)

lemma strncmp_empty_prefix:
  "strlen pfx = 0 \<Longrightarrow> n > 0 \<Longrightarrow> strncmp pfx path n = 0 \<longleftrightarrow> strlen path = 0"
  by (cases pfx; cases path) (auto simp: strlen_eq_0_iff of_char_int_eq_0_iff)

lemma strncmp_0: "strncmp s1 s2 0 = 0"
  by (cases s1; cases s2) auto

lemma fs_config_cmp_stray:
  assumes "len = strlen pfx"
  shows "fs_config_cmp b dir pfx len path (strlen path) = fs_config_cmp b' dir pfx len path (strlen path)"
proof (cases "len = 0")
  case True
  then have "strlen pfx = 0" using assms by simp
  then have "strncmp pfx path SIZE_MAX = 0 \<longleftrightarrow> strlen path = 0"
    by (rule strncmp_empty_prefix) (simp add: SIZE_MAX_def)
  with True show ?thesis
    by (auto simp: fs_config_cmp_def size_t_pred_def strncmp_0)
next
  case False
  then show ?thesis
    by (simp add: fs_config_cmp_def prefix_last_def)
qed

lemma read_record_stray: "read_record (sys\<lparr>stray_byte := b\<rparr>) content = read_record sys content"
  by (simp add: read_record_def Let_def)

lemma read_record_len:
  "read_record sys content = Inr (header, pfx, len, rest) \<Longrightarrow> len = strlen pfx"
  by (auto simp: read_record_def Let_def strnlen_def strlen_def split: if_splits)

lemma fs_config_file_loop_stray:
  "fs_config_file_loop (sys\<lparr>stray_byte := b\<rparr>) dir path (strlen path) content =
   fs_config_file_loop sys dir path (strlen path) content"
proof (induction content rule: length_induct)
  case (1 content)
  show ?case
  proof (cases "read_record sys content")
    case (Inl e)
    then show ?thesis
      by (simp add: fs_config_file_loop.simps [of _ _ _ _ content] read_record_stray)
  next
    case (Inr r)
    obtain header pfx len rest where r: "r = (header, pfx, len, rest)"
      by (cases r) auto
    from Inr r have shorter: "length rest < length content" and len: "len = strlen pfx"
      by (auto dest: read_record_shorter read_record_len)
    from shorter 1 have IH: "fs_config_file_loop (sys\<lparr>stray_byte := b\<rparr>) dir path (strlen path) rest =
       fs_config_file_loop sys dir path (strlen path) rest" by blast
    show ?thesis
      using Inr r IH fs_config_cmp_stray [OF len, of b dir path "stray_byte sys"]
      by (simp add: fs_config_file_loop.simps [of _ _ _ _ content] read_record_stray)
  qed
qed

lemma fs_config_open_stray:
  "fs_config_open (sys\<lparr>stray_byte := b\<rparr>) dir which tgt = fs_config_open sys dir which tgt"
  by (auto simp: fs_config_open_def Let_def split: option.splits)

lemma fs_config_conf_loop_stray:
  "fs_config_conf_loop (sys\<lparr>stray_byte := b\<rparr>) dir tgt path (strlen path) which =
   fs_config_conf_loop sys dir tgt path (strlen path) which"
proof (induction "length conf - which" arbitrary: which)
  case 0
  then show ?case
    by (simp add: fs_config_conf_loop.simps [of _ _ _ _ _ which])
next
  case (Suc n)
  then have "n = length conf - (which + 1)" by simp
  then have "fs_config_conf_loop (sys\<lparr>stray_byte := b\<rparr>) dir tgt path (strlen path) (which + 1) =
   fs_config_conf_loop sys dir tgt path (strlen path) (which + 1)"
    by (rule Suc.hyps(1))
  then have IH: "fs_config_conf_loop (sys\<lparr>stray_byte := b\<rparr>) dir tgt path (strlen path) (Suc which) =
   fs_config_conf_loop sys dir tgt path (strlen path) (Suc which)"
    by simp
  show ?case
    by (simp add: fs_config_conf_loop.simps [of _ _ _ _ _ which] fs_config_open_stray
        fs_config_file_loop_stray IH split: option.splits sum.splits)
qed

lemma fs_config_table_loop_stray:
  "fs_config_table_loop b dir path (strlen path) pcs = fs_config_table_loop b' dir path (strlen path) pcs"
proof (induction pcs)
  case Nil
  then show ?case by simp
next
  case (Cons pc pcs)
  then show ?case
    using fs_config_cmp_stray [of "strlen pfx" pfx b dir path b' for pfx]
    by (auto split: option.splits)
qed

lemma fs_config_stray:
  "fs_config h (sys\<lparr>stray_byte := b\<rparr>) path0 dir tgt mode0 = fs_config h sys path0 dir tgt mode0"
proof -
  have table: "fs_config_table_loop (stray_byte (sys\<lparr>stray_byte := b\<rparr>)) dir p (strlen p) pcs =
      fs_config_table_loop (stray_byte sys) dir p (strlen p) pcs" for p pcs
    by (rule fs_config_table_loop_stray)
  show ?thesis
    unfolding fs_config_def Let_def fs_config_conf_loop_stray table ..
qed

lemma table_loop_total:
  "\<exists>pc \<in> set pcs. prefix pc = None \<Longrightarrow> \<exists>pc. fs_config_table_loop stray dir path plen pcs = Some pc"
  by (induction pcs) (auto split: option.splits)

lemma table_loop_falls_through:
  "prefix t = None \<Longrightarrow>
   \<forall>pc \<in> set pcs. \<exists>pfx. prefix pc = Some pfx \<and> \<not> fs_config_cmp stray dir pfx (strlen pfx) path plen \<Longrightarrow>
   fs_config_table_loop stray dir path plen (pcs @ [t]) = Some t"
  by (induction pcs) (auto split: option.splits)

lemma android_dirs_last: "last (android_dirs h) = rule (octal 0 7 5 5) AID_ROOT AID_ROOT 0 None"
  by (simp add: android_dirs_def)

lemma android_files_last: "last (android_files h) = rule (octal 0 6 4 4) AID_ROOT AID_ROOT 0 None"
  by (simp add: android_files_def)

lemma android_dirs_prefixes: "\<forall>pc \<in> set (butlast (android_dirs h)). prefix pc \<noteq> None"
  by (simp add: android_dirs_def rule_def)

lemma android_files_prefixes: "\<forall>pc \<in> set (butlast (android_files h)). prefix pc \<noteq> None"
  by (simp add: android_files_def rule_def)

lemma android_dirs_nonempty: "android_dirs h \<noteq> []"
  by (simp add: android_dirs_def)

lemma android_files_nonempty: "android_files h \<noteq> []"
  by (simp add: android_files_def)

lemma builtin_table:
  fixes h dir
  defines "table \<equiv> (if dir then android_dirs h else android_files h)"
  shows "table = butlast table @ [last table]" and "prefix (last table) = None"
    and "\<forall>pc \<in> set (butlast table). prefix pc \<noteq> None"
    and "last table = rule (if dir then octal 0 7 5 5 else octal 0 6 4 4) AID_ROOT AID_ROOT 0 None"
proof -
  show "table = butlast table @ [last table]"
    using android_dirs_nonempty android_files_nonempty by (simp add: table_def)
  show "last table = rule (if dir then octal 0 7 5 5 else octal 0 6 4 4) AID_ROOT AID_ROOT 0 None"
    by (simp add: table_def android_dirs_last android_files_last)
  then show "prefix (last table) = None"
    by (simp add: rule_def)
  show "\<forall>pc \<in> set (butlast table). prefix pc \<noteq> None"
    using android_dirs_prefixes android_files_prefixes unfolding table_def by (cases dir) simp_all
qed

text \<open>
  Claim C1. \<open>fs_config\<close> is total: for every path, every directory flag and every state of
  the packed files it returns a tuple \<open>(uid, gid, mode, capabilities)\<close>, the scan of a built-in
  table never runs past its terminal entry, and the tuple does not depend on the byte read in
  front of an empty prefix. When no record of a packed file matches and no entry of the
  built-in table before the terminal one matches, the terminal entry supplies the result:
  uid 0, gid 0, no capabilities, and mode 0755 for a directory and 0644 for a file in the low
  twelve bits.
\<close>

theorem fs_config_total:
  fixes h sys path0 dir target_out_path mode0
  defines "path \<equiv> skip_leading_slash path0"
  defines "table \<equiv> (if dir then android_dirs h else android_files h)"
  shows "(\<exists>res. fs_config h sys path0 dir target_out_path mode0 = Inr res) \<and>
    (\<forall>b. fs_config h (sys\<lparr>stray_byte := b\<rparr>) path0 dir target_out_path mode0 =
         fs_config h sys path0 dir target_out_path mode0) \<and>
    (fs_config_conf_loop sys dir target_out_path path (strlen path) 0 = None \<and>
     (\<forall>pc \<in> set (butlast table). \<forall>pfx. prefix pc = Some pfx \<longrightarrow>
        \<not> fs_config_cmp (stray_byte sys) dir pfx (strlen pfx) path (strlen path))
     \<longrightarrow> fs_config h sys path0 dir target_out_path mode0 =
           Inr (0, 0, (mode0 AND NOT (octal 7 7 7 7)) OR (if dir then octal 0 7 5 5 else octal 0 6 4 4), 0))"
proof -
  define files where "files = fs_config_conf_loop sys dir target_out_path path (strlen path) 0"
  define builtin where "builtin = fs_config_table_loop (stray_byte sys) dir path (strlen path) table"
  have unfold: "fs_config h sys path0 dir target_out_path mode0 =
     (case files of
        Some header \<Rightarrow>
          Inr (ucast (get2LE (header_uid header)), ucast (get2LE (header_gid header)),
               (mode0 AND NOT (octal 7 7 7 7)) OR ucast (get2LE (header_mode header)),
               get8LE (header_capabilities header))
      | None \<Rightarrow>
          (case builtin of
             None \<Rightarrow> Inl Array_overrun
           | Some pc \<Rightarrow>
               Inr (uid pc, gid pc, (mode0 AND NOT (octal 7 7 7 7)) OR mode pc, capabilities pc)))"
    unfolding files_def builtin_def path_def table_def fs_config_def Let_def ..
  have tab: "table = butlast table @ [last table]" "prefix (last table) = None"
    "\<forall>pc \<in> set (butlast table). prefix pc \<noteq> None"
    "last table = rule (if dir then octal 0 7 5 5 else octal 0 6 4 4) AID_ROOT AID_ROOT 0 None"
    using builtin_table [of dir h] by (simp_all only: table_def)
  have "\<exists>pc \<in> set table. prefix pc = None"
    using tab(1,2) by (metis in_set_conv_decomp)
  then obtain pc where pc: "builtin = Some pc"
    unfolding builtin_def using table_loop_total by blast
  have total: "\<exists>res. fs_config h sys path0 dir target_out_path mode0 = Inr res"
    by (cases files) (simp_all add: unfold pc)
  have "fs_config h sys path0 dir target_out_path mode0 =
           Inr (0, 0, (mode0 AND NOT (octal 7 7 7 7)) OR (if dir then octal 0 7 5 5 else octal 0 6 4 4), 0)"
    if none: "files = None"
      and nomatch: "\<forall>pc \<in> set (butlast table). \<forall>pfx. prefix pc = Some pfx \<longrightarrow>
        \<not> fs_config_cmp (stray_byte sys) dir pfx (strlen pfx) path (strlen path)"
  proof -
    have "\<forall>pc \<in> set (butlast table). \<exists>pfx. prefix pc = Some pfx \<and>
        \<not> fs_config_cmp (stray_byte sys) dir pfx (strlen pfx) path (strlen path)"
      using nomatch tab(3) by auto
    then have "fs_config_table_loop (stray_byte sys) dir path (strlen path) (butlast table @ [last table]) = Some (last table)"
      using tab(2) by (rule table_loop_falls_through [rotated])
    then have "builtin = Some (last table)"
      using tab(1) by (simp add: builtin_def)
    then have "builtin = Some (rule (if dir then octal 0 7 5 5 else octal 0 6 4 4) AID_ROOT AID_ROOT 0 None)"
      by (simp only: tab(4))
    then show ?thesis
      by (simp add: unfold none rule_def AID_ROOT_def)
  qed
  with total show ?thesis unfolding files_def by (simp add: fs_config_stray)
qed

lemma fs_config_conf_loop_closed:
  assumes "\<And>w. fs_config_open sys dir w tgt = None"
  shows "fs_config_conf_loop sys dir tgt path plen which = None"
proof (induction "length conf - which" arbitrary: which)
  case 0
  then show ?case
    by (simp add: fs_config_conf_loop.simps [of _ _ _ _ _ which])
next
  case (Suc n)
  then have "n = length conf - Suc which" by simp
  then have "fs_config_conf_loop sys dir tgt path plen (Suc which) = None"
    by (rule Suc.hyps(1))
  then show ?case
    by (simp add: fs_config_conf_loop.simps [of _ _ _ _ _ which] assms)
qed

lemma fs_config_open_no_files: "fs_config_open no_files dir which tgt = None"
  by (simp add: fs_config_open_def no_files_def Let_def split: option.splits)

theorem fs_config_total_witness:
  "fs_config_conf_loop no_files False None ''foo'' (strlen ''foo'') 0 = None \<and>
   fs_config h0 no_files ''/foo'' False None 0 = Inr (0, 0, octal 0 6 4 4, 0)"
proof -
  have path: "skip_leading_slash ''/foo'' = ''foo''"
    by (simp add: skip_leading_slash_def)
  have files: "fs_config_conf_loop no_files False None (skip_leading_slash ''/foo'')
      (strlen (skip_leading_slash ''/foo'')) 0 = None"
    by (rule fs_config_conf_loop_closed) (rule fs_config_open_no_files)
  have table: "\<forall>pc \<in> set (butlast (if False then android_dirs h0 else android_files h0)).
      \<forall>pfx. prefix pc = Some pfx \<longrightarrow>
        \<not> fs_config_cmp (stray_byte no_files) False pfx (strlen pfx) (skip_leading_slash ''/foo'')
            (strlen (skip_leading_slash ''/foo''))"
    unfolding path
    by (simp add: android_files_def rule_def fs_config_cmp_def strlen_def prefix_last_def
        size_t_pred_def sys_conf_dir_def sys_conf_file_def ven_conf_dir_def ven_conf_file_def
        oem_conf_dir_def oem_conf_file_def odm_conf_dir_def odm_conf_file_def)
  from fs_config_total [of h0 no_files "''/foo''" False None 0] files table
  have "fs_config h0 no_files ''/foo'' False None 0 =
      Inr (0, 0, (0 AND NOT (octal 7 7 7 7)) OR (if False then octal 0 7 5 5 else octal 0 6 4 4), 0)"
    by blast
  then show ?thesis
    using files by (simp add: path)
qed

text \<open>
  The prefixes of the built-in tables are not empty: the scan of a table calls
  \<open>fs_config_cmp\<close> with \<open>len \<ge> 1\<close> only.
\<close>

lemma table_loop_calls_subset:
  "(pfx, len) \<in> set (fs_config_table_loop_calls stray dir path plen pcs) \<Longrightarrow>
   len = strlen pfx \<and> (\<exists>pc \<in> set pcs. prefix pc = Some pfx)"
  by (induction pcs) (auto split: option.splits if_splits)

lemma android_dirs_prefix_lengths:
  "\<forall>pc \<in> set (android_dirs h). \<forall>pfx. prefix pc = Some pfx \<longrightarrow> 1 \<le> strlen pfx"
  by (simp add: android_dirs_def rule_def strlen_def)

lemma android_files_prefix_lengths:
  "\<forall>pc \<in> set (android_files h). \<forall>pfx. prefix pc = Some pfx \<longrightarrow> 1 \<le> strlen pfx"
  by (simp add: android_files_def rule_def strlen_def sys_conf_dir_def sys_conf_file_def
      ven_conf_dir_def ven_conf_file_def oem_conf_dir_def oem_conf_file_def odm_conf_dir_def
      odm_conf_file_def)

lemma builtin_calls_have_len:
  assumes "(pfx, len) \<in> set (fs_config_table_loop_calls stray dir path plen
             (if dir then android_dirs h else android_files h))"
  shows "1 \<le> len"
proof -
  from table_loop_calls_subset [OF assms]
  obtain pc where "pc \<in> set (if dir then android_dirs h else android_files h)"
    and "prefix pc = Some pfx" and "len = strlen pfx"
    by blast
  then show ?thesis
    using android_dirs_prefix_lengths android_files_prefix_lengths by (cases dir) auto
qed

lemma read_empty_prefix_record:
  "read_record empty_prefix_system empty_prefix_record =
     Inr (take 16 empty_prefix_record, replicate 8 NUL, 0, [])"
  by (simp add: read_record_def empty_prefix_record_def sizeof_header_def header_len_def get2LE_def
      Let_def empty_prefix_system_def strnlen_def)

lemma first_file_calls:
  assumes "fs_config_open sys dir 0 tgt = Some content"
  shows "set (fs_config_file_loop_calls sys dir path plen content)
     \<subseteq> set (fs_config_conf_loop_calls sys dir tgt path plen 0)"
  using assms by (simp add: fs_config_conf_loop_calls.simps [of _ _ _ _ _ 0] conf_def)

lemma first_record_call:
  assumes "read_record sys content = Inr (header, pfx, len, rest)"
  shows "(pfx, len) \<in> set (fs_config_file_loop_calls sys dir path plen content)"
  using assms by (simp add: fs_config_file_loop_calls.simps [of _ _ _ _ content])

text \<open>
  Claim C9. The claim is that every call of \<open>fs_config_cmp\<close> reachable from \<open>fs_config\<close> with
  the directory flag clear has \<open>len \<ge> 1\<close>, so that the index \<open>len - 1\<close> lies within the prefix
  buffer. The code does not ensure it: a packed file whose record holds the empty prefix passes
  every check of the record reader, and \<open>fs_config_cmp\<close> is called with \<open>len = 0\<close>; the byte it
  then tests against \<open>*\<close> is the byte in front of the buffer, not a byte of the prefix.
\<close>

theorem fs_config_cmp_called_with_len_0:
  "(replicate 8 NUL, 0) \<in> set (fs_config_cmp_calls h0 empty_prefix_system ''/x'' False None) \<and>
   (\<forall>stray. prefix_last stray (replicate 8 NUL) 0 = stray) \<and> size_t_pred 0 = SIZE_MAX"
proof -
  have "fs_config_open empty_prefix_system False 0 None = Some empty_prefix_record"
    by (simp add: fs_config_open_def empty_prefix_system_def conf_name_def conf_def sys_conf_file_def)
  then have "set (fs_config_file_loop_calls empty_prefix_system False path plen empty_prefix_record)
     \<subseteq> set (fs_config_conf_loop_calls empty_prefix_system False None path plen 0)" for path plen
    by (rule first_file_calls)
  moreover have "(replicate 8 NUL, 0)
     \<in> set (fs_config_file_loop_calls empty_prefix_system False path plen empty_prefix_record)" for path plen
    using read_empty_prefix_record by (rule first_record_call)
  ultimately have "(replicate 8 NUL, 0)
     \<in> set (fs_config_conf_loop_calls empty_prefix_system False None path plen 0)" for path plen
    by blast
  then show ?thesis
    by (simp add: fs_config_cmp_calls_def Let_def prefix_last_def size_t_pred_def)
qed

lemma of_char_mem_byte:
  "(of_char (mem_byte (w :: 'a::len word) i) :: 'b::len word) = take_bit 8 (ucast (drop_bit (8 * i) w))"
proof -
  have "(of_char (char_of (unat x)) :: 'b word) = take_bit 8 (ucast x)" for x :: "'a word"
  proof -
    have "(of_char (char_of (unat x)) :: 'b word) = of_nat (of_char (char_of (unat x)))"
      by (rule of_nat_of_char [symmetric])
    also have "\<dots> = of_nat (take_bit 8 (unat x))"
      by (simp add: take_bit_eq_mod)
    also have "\<dots> = take_bit 8 (ucast x)"
      by (metis of_nat_unat take_bit_of_nat)
    finally show ?thesis .
  qed
  then show ?thesis by (simp add: mem_byte_def)
qed

lemma bit_of_char_mem_byte:
  "bit (of_char (mem_byte (w :: 'a::len word) i) :: 'b::len word) n \<longleftrightarrow> n < 8 \<and> n < LENGTH('b) \<and> bit w (8 * i + n)"
  by (auto simp add: of_char_mem_byte bit_simps)


lemma get2LE_mem_bytes2: "get2LE (mem_bytes (w :: 16 word) 2) = w"
  unfolding get2LE_def mem_bytes_def
  apply (rule bit_word_eqI)
  apply (simp add: bit_simps bit_of_char_mem_byte upt_rec)
  apply (auto)
  done



lemma get2LE_mem_bytes4: "get2LE (mem_bytes (w :: 32 word) 4) = ucast w"
  unfolding get2LE_def mem_bytes_def
  apply (rule bit_word_eqI)
  apply (simp add: bit_simps bit_of_char_mem_byte upt_rec)
  apply (auto)
  done

lemma mem_bytes8: "mem_bytes w 8 = [mem_byte w 0, mem_byte w 1, mem_byte w 2, mem_byte w 3, mem_byte w 4, mem_byte w 5, mem_byte w 6, mem_byte w 7]"
  by (simp add: mem_bytes_def upt_rec eval_nat_numeral)


lemma get8LE_mem_bytes8: "get8LE (mem_bytes (w :: 64 word) 8) = w"
proof -
  have low: "(of_char (mem_byte w 0) OR push_bit 8 (of_char (mem_byte w (Suc 0))) OR
              push_bit 16 (of_char (mem_byte w 2)) OR push_bit 24 (of_char (mem_byte w 3)) :: 32 word)
             = ucast w"
    apply (rule bit_word_eqI)
    apply (simp add: bit_simps bit_of_char_mem_byte)
    apply auto
    done
  have high: "(of_char (mem_byte w 4) OR push_bit 8 (of_char (mem_byte w 5)) OR
              push_bit 16 (of_char (mem_byte w 6)) OR push_bit 24 (of_char (mem_byte w 7)) :: 32 word)
             = ucast (drop_bit 32 w)"
    apply (rule bit_word_eqI)
    apply (simp add: bit_simps bit_of_char_mem_byte)
    apply (auto simp: add.commute)
    done
  have "push_bit 32 (ucast (ucast (drop_bit 32 w) :: 32 word)) OR ucast (ucast w :: 32 word) = w"
    apply (rule bit_word_eqI)
    apply (simp add: bit_simps)
    apply (auto simp: add.commute)
    done
  then show ?thesis
    by (simp add: get8LE_def mem_bytes8 low high)
qed

lemma and_not_7: "(x :: 64 word) AND NOT 7 = push_bit 3 (drop_bit 3 x)"
proof -
  have "(7 :: 64 word) = mask 3" by (simp add: mask_eq_exp_minus_1)
  then show ?thesis
    by (simp add: bit_eq_iff bit_simps) (auto simp: bit_simps)
qed

lemma unat_and_not_7: "unat ((x :: 64 word) AND NOT 7) = (unat x div 8) * 8"
proof -
  define y where "y = drop_bit 3 x"
  have y: "unat y = unat x div 8"
    by (simp add: y_def unat_drop_bit_eq drop_bit_eq_div unat_div)
  have "unat x < 2 ^ 64"
    using unsigned_less [of x] by simp
  then have "unat y * 8 < 2 ^ 64"
    unfolding y by simp
  then have "unat (y * 8) = unat y * unat (8 :: 64 word)"
    by (subst unat_mult_lem [symmetric]) simp
  then have *: "unat (y * 8) = (unat x div 8) * 8"
    by (simp add: y)
  have "x AND NOT 7 = y * 8"
    unfolding and_not_7 y_def by (simp add: push_bit_eq_mult)
  then show ?thesis
    using * by (simp only:)
qed

lemma unat_ALIGN_8:
  assumes "n + 7 < 2 ^ 64"
  shows "unat (ALIGN (of_nat n) 8) = ((n + 7) div 8) * 8"
proof -
  have "unat (of_nat (n + 7) :: 64 word) = n + 7"
    using assms by (simp add: unat_of_nat del: of_nat_add)
  moreover have "(of_nat n + (8 - 1) :: 64 word) = of_nat (n + 7)"
    by simp
  ultimately have "unat (of_nat n + (8 - 1) :: 64 word) = n + 7"
    by (simp only:)
  moreover have "ALIGN (of_nat n) 8 = (of_nat n + (8 - 1)) AND NOT 7"
    by (simp add: ALIGN_def)
  ultimately show ?thesis
    by (simp only: unat_and_not_7)
qed

lemma ucast_ucast_16:
  "(w :: 32 word) < 2 ^ 16 \<Longrightarrow> (ucast (ucast w :: 16 word) :: 32 word) = w"
proof -
  assume "w < 2 ^ 16"
  then have "unat w < 2 ^ 16"
    by (simp add: word_less_nat_alt)
  then have "take_bit 16 (unat w) = unat w"
    by (simp add: take_bit_nat_eq_self_iff)
  then have "unat (ucast (ucast w :: 16 word) :: 32 word) = unat w"
    by (simp add: unsigned_ucast_eq unsigned_take_bit_eq)
  then show ?thesis
    by (simp add: word_unat_eq_iff)
qed

lemma unat_ucast_16:
  "unat (w :: 64 word) < 2 ^ 16 \<Longrightarrow> unat (ucast w :: 16 word) = unat w"
  by (simp add: unsigned_ucast_eq take_bit_nat_eq_self_iff)

lemma length_mem_bytes [simp]: "length (mem_bytes w n) = n"
  by (simp add: mem_bytes_def)

lemma strlen_no_NUL: "NUL \<notin> set s \<Longrightarrow> strlen s = length s"
  by (induction s) (auto simp: strlen_def)

lemma strnlen_padded:
  "NUL \<notin> set s \<Longrightarrow> strnlen (s @ replicate k NUL) (length s + k) = length s"
  by (induction s) (auto simp: strnlen_def)


lemma mem_bytes2: "mem_bytes w 2 = [mem_byte w 0, mem_byte w 1]"
  by (simp add: mem_bytes_def upt_rec eval_nat_numeral)

lemma get2LE_append: "length a = 2 \<Longrightarrow> get2LE (a @ b) = get2LE a"
  by (cases a; cases "tl a") (auto simp: get2LE_def)

lemma generate_result:
  fixes r :: fs_path_config
  assumes pfx: "prefix r = Some pfx" "NUL \<notin> set pfx" and len: "length pfx \<le> 65511"
    and T: "T = ((length pfx + 24) div 8) * 8" and n: "T \<le> n"
  shows "fs_config_generate n r =
     Inr (mem_bytes (of_nat T :: 16 word) 2 @ mem_bytes (ucast (mode r) :: 16 word) 2 @
          mem_bytes (ucast (uid r) :: 16 word) 2 @ mem_bytes (ucast (gid r) :: 16 word) 2 @
          mem_bytes (capabilities r) 8 @ pfx @ replicate (T - 16 - length pfx) NUL)"
proof -
  define w :: "64 word" where "w = ALIGN (of_nat (sizeof_header + strlen pfx + 1)) 8"
  have strlen: "strlen pfx = length pfx"
    using pfx(2) by (rule strlen_no_NUL)
  have "unat w = ((length pfx + 17 + 7) div 8) * 8"
    unfolding w_def sizeof_header_def strlen using len
    by (subst unat_ALIGN_8) (simp_all add: add.commute add.left_commute)
  then have unat_w: "unat w = T"
    by (simp add: T)
  have T_le: "T \<le> 65528"
    using len unfolding T by simp
  have not_big: "\<not> w > UINT16_MAX"
    using T_le unat_w by (simp add: word_less_nat_alt UINT16_MAX_def)
  have host_len: "(ucast w :: 16 word) = of_nat T"
    using unat_w by (metis of_nat_unat)
  have "fs_config_generate n r =
     (let len = w
          in if n < unat len \<or> len > UINT16_MAX then Inl ENOSPC
             else
               let host_len :: 16 word = ucast len;
                   p_len = get2LE (mem_bytes host_len 2);
                   p_mode = get2LE (mem_bytes (mode r) 4);
                   p_uid = get2LE (mem_bytes (uid r) 4);
                   p_gid = get2LE (mem_bytes (gid r) 4);
                   p_capabilities = get8LE (mem_bytes (capabilities r) 8);
                   p_prefix = take (strlen pfx) pfx
               in Inr (mem_bytes p_len 2 @ mem_bytes p_mode 2 @ mem_bytes p_uid 2 @
                       mem_bytes p_gid 2 @ mem_bytes p_capabilities 8 @ p_prefix @
                       replicate (unat len - sizeof_header - strlen pfx) NUL))"
    unfolding fs_config_generate_def w_def by (simp only: pfx(1) option.case)
  then show ?thesis
    using n not_big
    by (simp add: Let_def unat_w host_len
        get2LE_mem_bytes2 get2LE_mem_bytes4 get8LE_mem_bytes8 strlen sizeof_header_def)
qed


lemma read_generated:
  assumes pfx: "NUL \<notin> set pfx" and len: "length pfx \<le> 65511"
    and T: "T = ((length pfx + 24) div 8) * 8" and alloc: "alloc_ok sys (T - 16)"
    and hdr: "length flds = 14"
  shows "read_record sys ((mem_bytes (of_nat T :: 16 word) 2 @ flds) @ pfx @ replicate (T - 16 - length pfx) NUL) =
     Inr (mem_bytes (of_nat T :: 16 word) 2 @ flds, pfx @ replicate (T - 16 - length pfx) NUL, length pfx, [])"
proof -
  have T_bounds: "length pfx + 17 \<le> T" "T \<le> 65528"
    using len unfolding T by presburger+
  have "unat (of_nat T :: 16 word) = T"
    using T_bounds by (simp add: unat_of_nat)
  then have "unat (get2LE (header_len (mem_bytes (of_nat T :: 16 word) 2 @ flds))) = T"
    by (simp add: header_len_def get2LE_mem_bytes2)
  then have host_len: "uint (get2LE (header_len (mem_bytes (of_nat T :: 16 word) 2 @ flds))) = int T"
    by (simp only: uint_nat)
  have pad: "T - 16 = length pfx + (T - 16 - length pfx)"
    using T_bounds by simp
  have "strnlen (pfx @ replicate (T - 16 - length pfx) NUL) (T - 16) = length pfx"
    using strnlen_padded [OF pfx, of "T - 16 - length pfx"] pad by simp
  moreover have "nat (int T - 16) = T - 16"
    by simp
  ultimately show ?thesis
    using T_bounds alloc hdr host_len
    by (simp add: read_record_def sizeof_header_def Let_def)
qed


lemma header_fields:
  fixes a b c d :: "16 word" and e :: "64 word"
  defines "hdr \<equiv> mem_bytes a 2 @ mem_bytes b 2 @ mem_bytes c 2 @ mem_bytes d 2 @ mem_bytes e 8"
  shows "get2LE (header_mode hdr) = b" "get2LE (header_uid hdr) = c"
    "get2LE (header_gid hdr) = d" "get8LE (header_capabilities hdr) = e"
  by (simp_all add: hdr_def header_mode_def header_uid_def header_gid_def header_capabilities_def
      get2LE_mem_bytes2 get8LE_mem_bytes8)

lemma decode_generated:
  fixes r :: fs_path_config
  assumes pfx: "prefix r = Some pfx" "NUL \<notin> set pfx" and len: "length pfx \<le> 65511"
    and T: "T = ((length pfx + 24) div 8) * 8" and n: "T \<le> n" and alloc: "alloc_ok sys (T - 16)"
  shows "\<exists>bytes. fs_config_generate n r = Inr bytes \<and> length bytes = T \<and>
     decode_record sys bytes =
       Inr \<lparr>mode = ucast (ucast (mode r) :: 16 word), uid = ucast (ucast (uid r) :: 16 word),
            gid = ucast (ucast (gid r) :: 16 word), capabilities = capabilities r,
            prefix = Some pfx\<rparr>"
proof -
  define flds where "flds = mem_bytes (ucast (mode r) :: 16 word) 2 @
          mem_bytes (ucast (uid r) :: 16 word) 2 @ mem_bytes (ucast (gid r) :: 16 word) 2 @
          mem_bytes (capabilities r) 8"
  define hdr where "hdr = mem_bytes (of_nat T :: 16 word) 2 @ flds"
  define bytes where "bytes = hdr @ pfx @ replicate (T - 16 - length pfx) NUL"
  have T_bounds: "length pfx + 17 \<le> T"
    using len unfolding T by presburger
  have gen: "fs_config_generate n r = Inr bytes"
    using generate_result [OF pfx len T n] by (simp add: bytes_def hdr_def flds_def)
  have "length flds = 14"
    by (simp add: flds_def)
  then have "read_record sys bytes = Inr (hdr, pfx @ replicate (T - 16 - length pfx) NUL, length pfx, [])"
    unfolding bytes_def hdr_def using read_generated [OF pfx(2) len T alloc] by blast
  moreover have "get2LE (header_mode hdr) = ucast (mode r)" "get2LE (header_uid hdr) = ucast (uid r)"
    "get2LE (header_gid hdr) = ucast (gid r)" "get8LE (header_capabilities hdr) = capabilities r"
    unfolding hdr_def flds_def by (rule header_fields)+
  ultimately have "decode_record sys bytes =
       Inr \<lparr>mode = ucast (ucast (mode r) :: 16 word), uid = ucast (ucast (uid r) :: 16 word),
            gid = ucast (ucast (gid r) :: 16 word), capabilities = capabilities r,
            prefix = Some pfx\<rparr>"
    by (simp add: decode_record_def)
  moreover have "length bytes = T"
    using T_bounds by (simp add: bytes_def hdr_def flds_def)
  ultimately show ?thesis
    using gen by blast
qed

text \<open>
  Claim C4, as amended. For every rule \<open>r\<close> whose prefix (a C string) is at most 65511 bytes
  long, so that the record, the 16-byte header with the prefix and its NUL rounded up to a
  multiple of 8, is at most 65528 bytes, and whose mode, uid and gid are below \<open>2 ^ 16\<close>:
  \<open>fs_config_generate\<close> with a buffer of at least the size of the record, followed by the
  matcher's reading of the record (the prefix buffer being allocated), gives \<open>r\<close> back.
\<close>

theorem fs_config_generate_decode:
  fixes r :: fs_path_config
  assumes "prefix r = Some pfx" and "NUL \<notin> set pfx" and "length pfx \<le> 65511"
    and "mode r < 2 ^ 16" and "uid r < 2 ^ 16" and "gid r < 2 ^ 16"
    and "((length pfx + 24) div 8) * 8 \<le> n"
    and "alloc_ok sys (((length pfx + 24) div 8) * 8 - 16)"
  shows "encode_decode n sys r = Some r"
proof -
  have "r = \<lparr>mode = ucast (ucast (mode r) :: 16 word), uid = ucast (ucast (uid r) :: 16 word),
            gid = ucast (ucast (gid r) :: 16 word), capabilities = capabilities r,
            prefix = Some pfx\<rparr>"
    using assms(1,4,5,6) by (simp add: ucast_ucast_16)
  then show ?thesis
    using decode_generated [OF assms(1,2,3) refl assms(7,8)] by (auto simp: encode_decode_def)
qed

theorem fs_config_generate_decode_witness:
  "encode_decode 32 no_files (rule (octal 0 7 5 5) 0 2000 0 (Some ''system/bin/*''))
     = Some (rule (octal 0 7 5 5) 0 2000 0 (Some ''system/bin/*''))"
  by (rule fs_config_generate_decode [where pfx = "''system/bin/*''"])
     (simp_all add: rule_def octal_def no_files_def)

text \<open>
  The claim as stated, for every rule whose prefix length plus the header size is at most
  \<open>UINT16_MAX\<close>, fails: a prefix of 65512 bytes satisfies that bound, and
  \<open>fs_config_generate\<close> rejects the rule, since the record of 65536 bytes exceeds
  \<open>UINT16_MAX\<close>; and a rule with uid 65536 is written and read back with uid 0, since the
  record keeps 16 bits of each of mode, uid and gid.
\<close>

theorem fs_config_generate_counterexample:
  "length (replicate 65512 (CHR ''a'')) + sizeof_header \<le> 65535 \<and>
   encode_decode 65536 no_files (rule (octal 0 6 4 4) 0 0 0 (Some (replicate 65512 (CHR ''a'')))) = None \<and>
   length ''x'' + sizeof_header \<le> 65535 \<and>
   encode_decode 24 no_files (rule (octal 0 6 4 4) 65536 0 0 (Some ''x''))
     = Some (rule (octal 0 6 4 4) 0 0 0 (Some ''x''))"
proof -
  have "strlen (replicate 65512 (CHR ''a'')) = 65512"
    by (simp add: strlen_no_NUL)
  moreover have "unat (ALIGN (of_nat (sizeof_header + 65512 + 1)) 8) = 65536"
    by (subst unat_ALIGN_8) (simp_all add: sizeof_header_def)
  ultimately have "fs_config_generate 65536 (rule (octal 0 6 4 4) 0 0 0 (Some (replicate 65512 (CHR ''a''))))
     = Inl ENOSPC"
    by (simp add: fs_config_generate_def rule_def Let_def word_less_nat_alt UINT16_MAX_def)
  then have first: "encode_decode 65536 no_files
      (rule (octal 0 6 4 4) 0 0 0 (Some (replicate 65512 (CHR ''a'')))) = None"
    by (simp add: encode_decode_def)
  have "\<exists>bytes. fs_config_generate 24 (rule (octal 0 6 4 4) 65536 0 0 (Some ''x'')) = Inr bytes \<and>
     length bytes = 24 \<and>
     decode_record no_files bytes =
       Inr \<lparr>mode = ucast (ucast (mode (rule (octal 0 6 4 4) 65536 0 0 (Some ''x''))) :: 16 word),
            uid = ucast (ucast (uid (rule (octal 0 6 4 4) 65536 0 0 (Some ''x''))) :: 16 word),
            gid = ucast (ucast (gid (rule (octal 0 6 4 4) 65536 0 0 (Some ''x''))) :: 16 word),
            capabilities = capabilities (rule (octal 0 6 4 4) 65536 0 0 (Some ''x'')),
            prefix = Some ''x''\<rparr>"
    by (rule decode_generated) (simp_all add: rule_def no_files_def)
  then have second: "encode_decode 24 no_files (rule (octal 0 6 4 4) 65536 0 0 (Some ''x''))
     = Some (rule (octal 0 6 4 4) 0 0 0 (Some ''x''))"
    by (auto simp: encode_decode_def rule_def octal_def)
  show ?thesis
    using first second by (simp add: sizeof_header_def)
qed

lemma read_record_nat:
  "read_record sys content =
     (if length content < 16 then Inl End_of_file
      else
        let declared = unat (get2LE (header_len (take 16 content)))
        in if declared \<le> 16 then Inl Len_corrupted
           else if \<not> alloc_ok sys (declared - 16) then Inl Out_of_memory
           else if length content < declared then Inl Prefix_truncated
           else
             let pfx = take (declared - 16) (drop 16 content);
                 len = strnlen pfx (declared - 16)
             in if len \<ge> declared - 16 then Inl Not_terminated
                else Inr (take 16 content, pfx, len, drop declared content))"
proof -
  define d where "d = unat (get2LE (header_len (take sizeof_header content)))"
  have a: "int d - int sizeof_header \<le> 0 \<longleftrightarrow> d \<le> sizeof_header"
    by simp
  have b: "nat (int d - int sizeof_header) = d - sizeof_header"
    by simp
  have c: "int l \<ge> int d - int sizeof_header \<longleftrightarrow> l \<ge> d - sizeof_header" for l
    by auto
  have "read_record sys content =
     (if length content < sizeof_header then Inl End_of_file
      else if d \<le> sizeof_header then Inl Len_corrupted
           else if \<not> alloc_ok sys (d - sizeof_header) then Inl Out_of_memory
           else if length (drop sizeof_header content) < d - sizeof_header then Inl Prefix_truncated
           else if strnlen (take (d - sizeof_header) (drop sizeof_header content)) (d - sizeof_header) \<ge> d - sizeof_header then Inl Not_terminated
                else Inr (take sizeof_header content, take (d - sizeof_header) (drop sizeof_header content),
                  strnlen (take (d - sizeof_header) (drop sizeof_header content)) (d - sizeof_header),
                  drop (sizeof_header + (d - sizeof_header)) content))"
    unfolding read_record_def Let_def d_def [symmetric] a b c ..
  then show ?thesis
    unfolding d_def by (auto simp: sizeof_header_def Let_def)
qed

lemma strnlen_less_iff: "length s = n \<Longrightarrow> strnlen s n < n \<longleftrightarrow> NUL \<in> set s"
proof -
  have "length (takeWhile (\<lambda>c. c \<noteq> NUL) xs) < length xs \<longleftrightarrow> NUL \<in> set xs" for xs :: string
    by (induction xs) auto
  then show "length s = n \<Longrightarrow> strnlen s n < n \<longleftrightarrow> NUL \<in> set s"
    by (auto simp: strnlen_def)
qed

lemma corrupt_record_read:
  assumes "corrupt_record content"
  shows "read_record sys content \<in> {Inl Len_corrupted, Inl Out_of_memory, Inl Prefix_truncated, Inl Not_terminated}"
proof -
  define d where "d = unat (get2LE (header_len (take 16 content)))"
  from assms have long: "16 \<le> length content"
    and bad: "d \<le> 16 \<or> length content < d \<or> NUL \<notin> set (take (d - 16) (drop 16 content))"
    by (simp_all add: corrupt_record_def sizeof_header_def Let_def d_def)
  have read: "read_record sys content =
     (if d \<le> 16 then Inl Len_corrupted
      else if \<not> alloc_ok sys (d - 16) then Inl Out_of_memory
      else if length content < d then Inl Prefix_truncated
      else if strnlen (take (d - 16) (drop 16 content)) (d - 16) \<ge> d - 16 then Inl Not_terminated
      else Inr (take 16 content, take (d - 16) (drop 16 content),
                strnlen (take (d - 16) (drop 16 content)) (d - 16), drop d content))"
    using long unfolding read_record_nat d_def by (simp add: Let_def)
  show ?thesis
  proof (cases "d \<le> 16 \<or> \<not> alloc_ok sys (d - 16) \<or> length content < d")
    case True
    then show ?thesis unfolding read by auto
  next
    case False
    with bad have "NUL \<notin> set (take (d - 16) (drop 16 content))"
      by auto
    moreover have "length (take (d - 16) (drop 16 content)) = d - 16"
      using False by auto
    ultimately have "\<not> strnlen (take (d - 16) (drop 16 content)) (d - 16) < d - 16"
      using strnlen_less_iff by blast
    then show ?thesis unfolding read using False by auto
  qed
qed

lemma read_record_Nil: "read_record sys [] = Inl End_of_file"
  by (simp add: read_record_nat)

lemma read_record_Inr_iff:
  "read_record sys content = Inr (header, pfx, len, rest) \<longleftrightarrow>
     16 \<le> length content \<and>
     (let d = unat (get2LE (header_len (take 16 content)))
      in 16 < d \<and> alloc_ok sys (d - 16) \<and> d \<le> length content \<and>
         header = take 16 content \<and> pfx = take (d - 16) (drop 16 content) \<and>
         len = strnlen pfx (d - 16) \<and> len < d - 16 \<and> rest = drop d content)"
  unfolding read_record_nat Let_def by auto

lemma read_record_append:
  assumes "read_record sys content = Inr (header, pfx, len, rest)"
  shows "read_record sys (content @ bad) = Inr (header, pfx, len, rest @ bad)"
proof -
  define d where "d = unat (get2LE (header_len (take 16 content)))"
  from assms have *: "16 \<le> length content" "16 < d" "alloc_ok sys (d - 16)" "d \<le> length content"
    "header = take 16 content" "pfx = take (d - 16) (drop 16 content)"
    "len = strnlen pfx (d - 16)" "len < d - 16" "rest = drop d content"
    unfolding read_record_Inr_iff Let_def d_def by blast+
  have "take 16 (content @ bad) = take 16 content"
    using *(1) by simp
  moreover have "take (d - 16) (drop 16 (content @ bad)) = take (d - 16) (drop 16 content)"
    using *(1,2,4) by simp
  moreover have "drop d (content @ bad) = drop d content @ bad"
    using *(4) by simp
  ultimately show ?thesis
    unfolding read_record_Inr_iff [of sys "content @ bad"] Let_def
    using * by (simp add: d_def)
qed

lemma file_loop_whole_record:
  assumes "read_record sys rec = Inr (header, pfx, len, [])"
  shows "fs_config_file_loop sys dir path plen (rec @ content) =
     (if fs_config_cmp (stray_byte sys) dir pfx len path plen then Inr header
      else fs_config_file_loop sys dir path plen content)"
  using read_record_append [OF assms, of content]
  by (simp add: fs_config_file_loop.simps [of _ _ _ _ "rec @ content"])

lemma file_loop_corrupt_tail:
  assumes whole: "\<forall>rec \<in> set recs. \<exists>header pfx len. read_record sys rec = Inr (header, pfx, len, [])"
    and bad: "read_record sys bad = Inl e"
  shows "fs_config_file_loop sys dir path plen (concat recs @ bad) =
     (case fs_config_file_loop sys dir path plen (concat recs) of
        Inr header \<Rightarrow> Inr header
      | Inl e' \<Rightarrow> Inl e)"
  using whole
proof (induction recs)
  case Nil
  show ?case
    using bad
    by (simp add: fs_config_file_loop.simps [of _ _ _ _ bad] fs_config_file_loop.simps [of _ _ _ _ "[]"]
        read_record_Nil)
next
  case (Cons rec recs)
  then obtain header pfx len where rec: "read_record sys rec = Inr (header, pfx, len, [])"
    by auto
  from Cons have IH: "fs_config_file_loop sys dir path plen (concat recs @ bad) =
     (case fs_config_file_loop sys dir path plen (concat recs) of
        Inr header \<Rightarrow> Inr header
      | Inl e' \<Rightarrow> Inl e)"
    by simp
  show ?case
    using file_loop_whole_record [OF rec, of dir path plen "concat recs @ bad"]
      file_loop_whole_record [OF rec, of dir path plen "concat recs"] IH
    by simp
qed

lemma file_loop_match_is_read:
  assumes "fs_config_file_loop sys dir path plen content = Inr header"
  shows "\<exists>k pfx len rest. read_record sys (drop k content) = Inr (header, pfx, len, rest) \<and>
     fs_config_cmp (stray_byte sys) dir pfx len path plen"
  using assms
proof (induction content rule: length_induct)
  case (1 content)
  from "1.prems" obtain h pfx len rest where r: "read_record sys content = Inr (h, pfx, len, rest)"
    by (cases "read_record sys content")
       (auto simp: fs_config_file_loop.simps [of _ _ _ _ content])
  show ?case
  proof (cases "fs_config_cmp (stray_byte sys) dir pfx len path plen")
    case True
    with r "1.prems" have "h = header"
      by (simp add: fs_config_file_loop.simps [of _ _ _ _ content])
    with r True have "read_record sys (drop 0 content) = Inr (header, pfx, len, rest) \<and>
        fs_config_cmp (stray_byte sys) dir pfx len path plen"
      by simp
    then show ?thesis by blast
  next
    case False
    with r "1.prems" have rest: "fs_config_file_loop sys dir path plen rest = Inr header"
      by (simp add: fs_config_file_loop.simps [of _ _ _ _ content])
    have shorter: "length rest < length content"
      using r by (rule read_record_shorter)
    have "rest = drop (length content - length rest) content"
      using r unfolding read_record_Inr_iff Let_def by auto
    moreover obtain k pfx' len' rest' where
      "read_record sys (drop k rest) = Inr (header, pfx', len', rest')"
      "fs_config_cmp (stray_byte sys) dir pfx' len' path plen"
      using "1.IH" shorter rest by blast
    ultimately have "read_record sys (drop (k + (length content - length rest)) content) = Inr (header, pfx', len', rest')
      \<and> fs_config_cmp (stray_byte sys) dir pfx' len' path plen"
      by (metis drop_drop)
    then show ?thesis by blast
  qed
qed

lemma conf_loop_match_is_scanned:
  assumes "fs_config_conf_loop sys dir target_out_path path plen which = Some header"
  shows "\<exists>w content. which \<le> w \<and> w < length conf \<and>
     fs_config_open sys dir w target_out_path = Some content \<and>
     fs_config_file_loop sys dir path plen content = Inr header"
  using assms
proof (induction "length conf - which" arbitrary: which)
  case 0
  then show ?case
    by (simp add: fs_config_conf_loop.simps [of _ _ _ _ _ which])
next
  case (Suc n)
  then have lt: "which < length conf"
    by simp
  have n: "n = length conf - Suc which"
    using Suc.hyps(2) by simp
  have IH: "\<exists>w content. Suc which \<le> w \<and> w < length conf \<and>
     fs_config_open sys dir w target_out_path = Some content \<and>
     fs_config_file_loop sys dir path plen content = Inr header"
    if "fs_config_conf_loop sys dir target_out_path path plen (Suc which) = Some header"
    using Suc.hyps(1) [OF n that] .
  show ?case
  proof (cases "fs_config_open sys dir which target_out_path")
    case None
    with Suc.prems lt have "fs_config_conf_loop sys dir target_out_path path plen (Suc which) = Some header"
      by (simp add: fs_config_conf_loop.simps [of _ _ _ _ _ which])
    from IH [OF this] show ?thesis
      using Suc_leD by blast
  next
    case (Some content)
    show ?thesis
    proof (cases "fs_config_file_loop sys dir path plen content")
      case (Inl e)
      with Some Suc.prems lt
      have "fs_config_conf_loop sys dir target_out_path path plen (Suc which) = Some header"
        by (simp add: fs_config_conf_loop.simps [of _ _ _ _ _ which])
      from IH [OF this] show ?thesis
        using Suc_leD by blast
    next
      case (Inr h)
      with Some Suc.prems lt have "h = header"
        by (simp add: fs_config_conf_loop.simps [of _ _ _ _ _ which])
      with Some Inr lt show ?thesis
        by blast
    qed
  qed
qed

text \<open>
  Claim C5. Let a packed file consist of whole records followed by a corrupt record (declared
  length at most the header size, a prefix cut short by the end of the file, or a prefix with
  no NUL within its declared length) and anything after it. Then the scan of the file gives
  what the scan of the whole records alone gives, except that it ends with a corruption error:
  the corrupt record and the rest of the file are never compared or applied. The matcher then
  returns the header of a whole record that matched, if there is one; otherwise it goes on
  with the next file of the sequence: it opens that file and scans it, a match there is the
  result, and only without one it goes on to the files after it. And whenever the scan of a
  file returns a header, that header belongs to a record that was read in full, passed every
  check and matched; the header that the loop over the files returns, from which the outputs
  are assigned, is the header of such a record of one of the files.
\<close>

theorem corrupt_record_skips_rest_of_file:
  assumes whole: "\<forall>rec \<in> set recs. \<exists>header pfx len. read_record sys rec = Inr (header, pfx, len, [])"
    and corrupt: "corrupt_record bad"
  shows "(\<exists>e. e \<noteq> End_of_file \<and>
            fs_config_file_loop sys dir path plen (concat recs @ bad) =
              (case fs_config_file_loop sys dir path plen (concat recs) of
                 Inr header \<Rightarrow> Inr header
               | Inl e' \<Rightarrow> Inl e)) \<and>
         (which < length conf \<and>
          fs_config_open sys dir which target_out_path = Some (concat recs @ bad)
          \<longrightarrow> fs_config_conf_loop sys dir target_out_path path plen which =
              (case fs_config_file_loop sys dir path plen (concat recs) of
                 Inr header \<Rightarrow> Some header
               | Inl e' \<Rightarrow>
                   if Suc which < length conf then
                     (case fs_config_open sys dir (Suc which) target_out_path of
                        None \<Rightarrow> fs_config_conf_loop sys dir target_out_path path plen (Suc (Suc which))
                      | Some content \<Rightarrow>
                          (case fs_config_file_loop sys dir path plen content of
                             Inr header \<Rightarrow> Some header
                           | Inl e'' \<Rightarrow>
                               fs_config_conf_loop sys dir target_out_path path plen (Suc (Suc which))))
                   else None)) \<and>
         (\<forall>content header. fs_config_file_loop sys dir path plen content = Inr header \<longrightarrow>
            (\<exists>k pfx len rest. read_record sys (drop k content) = Inr (header, pfx, len, rest) \<and>
               fs_config_cmp (stray_byte sys) dir pfx len path plen)) \<and>
         (\<forall>header. fs_config_conf_loop sys dir target_out_path path plen which = Some header \<longrightarrow>
            (\<exists>w content k pfx len rest. which \<le> w \<and> w < length conf \<and>
               fs_config_open sys dir w target_out_path = Some content \<and>
               read_record sys (drop k content) = Inr (header, pfx, len, rest) \<and>
               fs_config_cmp (stray_byte sys) dir pfx len path plen))"
proof -
  from corrupt obtain e where e: "read_record sys bad = Inl e" "e \<noteq> End_of_file"
    using corrupt_record_read [of bad sys] by auto
  have tail: "fs_config_file_loop sys dir path plen (concat recs @ bad) =
              (case fs_config_file_loop sys dir path plen (concat recs) of
                 Inr header \<Rightarrow> Inr header
               | Inl e' \<Rightarrow> Inl e)"
    using whole e(1) by (rule file_loop_corrupt_tail)
  have step: "fs_config_conf_loop sys dir target_out_path path plen w =
     (if w < length conf then
        (case fs_config_open sys dir w target_out_path of
           None \<Rightarrow> fs_config_conf_loop sys dir target_out_path path plen (Suc w)
         | Some content \<Rightarrow>
             (case fs_config_file_loop sys dir path plen content of
                Inr header \<Rightarrow> Some header
              | Inl e \<Rightarrow> fs_config_conf_loop sys dir target_out_path path plen (Suc w)))
      else None)" for w
    unfolding Suc_eq_plus1 by (rule fs_config_conf_loop.simps)
  have "fs_config_conf_loop sys dir target_out_path path plen which =
              (case fs_config_file_loop sys dir path plen (concat recs) of
                 Inr header \<Rightarrow> Some header
               | Inl e' \<Rightarrow>
                   if Suc which < length conf then
                     (case fs_config_open sys dir (Suc which) target_out_path of
                        None \<Rightarrow> fs_config_conf_loop sys dir target_out_path path plen (Suc (Suc which))
                      | Some content \<Rightarrow>
                          (case fs_config_file_loop sys dir path plen content of
                             Inr header \<Rightarrow> Some header
                           | Inl e'' \<Rightarrow>
                               fs_config_conf_loop sys dir target_out_path path plen (Suc (Suc which))))
                   else None)"
    if "which < length conf"
      and "fs_config_open sys dir which target_out_path = Some (concat recs @ bad)"
    using that tail unfolding step [of which] step [of "Suc which"]
    by (simp split: sum.splits)
  moreover have "\<exists>w content k pfx len rest. which \<le> w \<and> w < length conf \<and>
               fs_config_open sys dir w target_out_path = Some content \<and>
               read_record sys (drop k content) = Inr (header, pfx, len, rest) \<and>
               fs_config_cmp (stray_byte sys) dir pfx len path plen"
    if "fs_config_conf_loop sys dir target_out_path path plen which = Some header" for header
  proof -
    from conf_loop_match_is_scanned [OF that] obtain w content where w: "which \<le> w" "w < length conf"
      "fs_config_open sys dir w target_out_path = Some content"
      "fs_config_file_loop sys dir path plen content = Inr header"
      by blast
    from file_loop_match_is_read [OF w(4)] w(1,2,3) show ?thesis
      by blast
  qed
  ultimately show ?thesis
    using tail e(2) file_loop_match_is_read by blast
qed

lemma read_x_record:
  "read_record corrupt_then_vendor x_record = Inr (take 16 x_record, [CHR ''x'', NUL, NUL, NUL, NUL, NUL, NUL, NUL], 1, [])"
  by (simp add: read_record_def x_record_def sizeof_header_def header_len_def get2LE_def
      Let_def corrupt_then_vendor_def strnlen_def)

lemma x_record_fields:
  "get2LE (header_mode (take 16 x_record)) = 384"
  "get2LE (header_uid (take 16 x_record)) = 1"
  "get2LE (header_gid (take 16 x_record)) = 2"
  "get8LE (header_capabilities (take 16 x_record)) = 0"
  by (simp_all add: x_record_def header_mode_def header_uid_def header_gid_def
      header_capabilities_def get2LE_def get8LE_def)

theorem corrupt_record_skips_rest_of_file_witness:
  "corrupt_record (replicate 16 NUL) \<and>
   fs_config_open corrupt_then_vendor False 0 None = Some (concat [empty_prefix_record] @ replicate 16 NUL) \<and>
   fs_config_open corrupt_then_vendor False 1 None = Some x_record \<and>
   fs_config_conf_loop corrupt_then_vendor False None ''x'' 1 0 = Some (take 16 x_record) \<and>
   fs_config h0 corrupt_then_vendor ''/x'' False None 0 = Inr (1, 2, octal 0 6 0 0, 0)"
proof -
  have read: "read_record corrupt_then_vendor empty_prefix_record =
     Inr (take 16 empty_prefix_record, replicate 8 NUL, 0, [])"
    by (simp add: read_record_def empty_prefix_record_def sizeof_header_def header_len_def
        get2LE_def Let_def corrupt_then_vendor_def strnlen_def)
  then have whole: "\<forall>rec \<in> set [empty_prefix_record].
      \<exists>header pfx len. read_record corrupt_then_vendor rec = Inr (header, pfx, len, [])"
    by simp
  have corrupt: "corrupt_record (replicate 16 NUL)"
    by (simp add: corrupt_record_def sizeof_header_def header_len_def get2LE_def)
  have nomatch: "fs_config_file_loop corrupt_then_vendor False ''x'' 1 (concat [empty_prefix_record]) =
      Inl End_of_file"
    using read
    by (simp add: fs_config_file_loop.simps [of _ _ _ _ empty_prefix_record]
        fs_config_file_loop.simps [of _ _ _ _ "[]"] read_record_Nil
        fs_config_cmp_def prefix_last_def corrupt_then_vendor_def)
  have opened: "fs_config_open corrupt_then_vendor False 0 None =
      Some (concat [empty_prefix_record] @ replicate 16 NUL)"
    by (simp add: fs_config_open_def corrupt_then_vendor_def conf_name_def conf_def sys_conf_file_def)
  have vendor: "fs_config_open corrupt_then_vendor False (Suc 0) None = Some x_record"
    by (simp add: fs_config_open_def corrupt_then_vendor_def conf_name_def conf_def
        sys_conf_file_def ven_conf_file_def)
  have match: "fs_config_file_loop corrupt_then_vendor False ''x'' 1 x_record = Inr (take 16 x_record)"
    using read_x_record
    by (simp add: fs_config_file_loop.simps [of _ _ _ _ x_record]
        fs_config_cmp_def prefix_last_def corrupt_then_vendor_def strncmp_0)
  have len: "0 < length conf" "Suc 0 < length conf"
    by (simp_all add: conf_def)
  from corrupt_record_skips_rest_of_file [OF whole corrupt, of False "''x''" 1 0 None] opened len(1)
  have "fs_config_conf_loop corrupt_then_vendor False None ''x'' 1 0 =
     (case fs_config_file_loop corrupt_then_vendor False ''x'' 1 (concat [empty_prefix_record]) of
        Inr header \<Rightarrow> Some header
      | Inl e' \<Rightarrow>
          if Suc 0 < length conf then
            (case fs_config_open corrupt_then_vendor False (Suc 0) None of
               None \<Rightarrow> fs_config_conf_loop corrupt_then_vendor False None ''x'' 1 (Suc (Suc 0))
             | Some content \<Rightarrow>
                 (case fs_config_file_loop corrupt_then_vendor False ''x'' 1 content of
                    Inr header \<Rightarrow> Some header
                  | Inl e'' \<Rightarrow>
                      fs_config_conf_loop corrupt_then_vendor False None ''x'' 1 (Suc (Suc 0))))
          else None)"
    by blast
  then have loop: "fs_config_conf_loop corrupt_then_vendor False None ''x'' 1 0 = Some (take 16 x_record)"
    by (simp only: nomatch sum.case len(2) if_True vendor option.case match)
  have "skip_leading_slash ''/x'' = ''x''" "strlen ''x'' = 1"
    by (simp_all add: skip_leading_slash_def strlen_def)
  moreover have "fs_config_conf_loop corrupt_then_vendor False None ''x'' (Suc 0) 0 = Some (take 16 x_record)"
    using loop by simp
  ultimately have "fs_config h0 corrupt_then_vendor ''/x'' False None 0 = Inr (1, 2, octal 0 6 0 0, 0)"
    by (simp add: fs_config_def Let_def x_record_fields octal_def)
  with corrupt opened vendor loop show ?thesis
    by (simp del: concat.simps)
qed

lemma strcmp_eq0_iff:
  "NUL \<notin> set a \<Longrightarrow> NUL \<notin> set b \<Longrightarrow> strcmp a b = 0 \<longleftrightarrow> a = b"
  by (induction a b rule: strcmp.induct) (auto simp: of_char_int_eq_0_iff)

lemma strip_trailing_slashes_take:
  "n \<le> length xs \<Longrightarrow>
   strip_trailing_slashes xs n = length (dropWhile (\<lambda>c. c = CHR ''/'') (rev (take n xs)))"
  by (induction n) (auto simp: take_Suc_conv_app_nth)

text \<open>
  When the name built from \<open>target_out_path\<close> cannot be opened, the absolute name is.
\<close>

lemma fs_config_open_fallback:
  assumes "open_file sys (target_name target (conf_name which dir)) = None"
  shows "fs_config_open sys dir which (Some target) = open_file sys (conf_name which dir)"
  using assms by (simp add: fs_config_open_def Let_def)

text \<open>
  The name that is built: a trailing \<open>/system\<close> is removed from a \<open>target_out_path\<close>
  that ends in no slash, as the claim says; from one that ends in a slash only the trailing
  slashes are removed.
\<close>

lemma target_name_spec:
  assumes "NUL \<notin> set target"
  shows "target_name target name =
     (if target \<noteq> [] \<and> last target = CHR ''/''
      then rev (dropWhile (\<lambda>c. c = CHR ''/'') (rev target))
      else claimed_target_prefix target) @ name"
proof -
  define stripped where "stripped = rev (dropWhile (\<lambda>c. c = CHR ''/'') (rev target))"
  define slashes where "slashes = rev (takeWhile (\<lambda>c. c = CHR ''/'') (rev target))"
  have target: "target = stripped @ slashes"
    unfolding stripped_def slashes_def by (metis rev_append rev_rev_ident takeWhile_dropWhile_id)
  have len: "strlen target = length target"
    using assms by (rule strlen_no_NUL)
  have strip: "strip_trailing_slashes target (strlen target) = length stripped"
    by (simp add: len strip_trailing_slashes_take stripped_def)
  have tk: "take (length stripped) target = stripped"
    using target by simp
  have sl: "slashes = [] \<longleftrightarrow> \<not> (target \<noteq> [] \<and> last target = CHR ''/'')"
    unfolding slashes_def by (cases target rule: rev_cases) auto
  have "NUL \<notin> set (drop k target)" for k
    using assms by (meson in_set_dropD)
  then have cmp: "strcmp (drop k target) ''/system'' = 0 \<longleftrightarrow> drop k target = ''/system''" for k
    by (intro strcmp_eq0_iff) auto
  have seven: "strlen ''/system'' = 7"
    by (simp add: strlen_def)
  have seven': "length ''/system'' = 7"
    by simp
  have code: "target_name target name =
      (if 7 \<le> length stripped \<and> drop (length stripped - 7) target = ''/system''
       then take (length stripped - 7) target else stripped) @ name"
    unfolding target_name_def Let_def strip seven cmp using tk by simp
  have claim: "claimed_target_prefix target =
      (if 7 \<le> length stripped \<and> drop (length stripped - 7) stripped = ''/system''
       then take (length stripped - 7) stripped else stripped)"
    unfolding claimed_target_prefix_def Let_def stripped_def [symmetric] seven' ..
  show ?thesis
  proof (cases "slashes = []")
    case True
    then have "target = stripped" using target by simp
    then have "target_name target name = claimed_target_prefix target @ name"
      using code claim by simp
    then show ?thesis
      using True sl by auto
  next
    case False
    have "drop (length stripped - 7) target \<noteq> ''/system''" if "7 \<le> length stripped"
    proof
      assume eq: "drop (length stripped - 7) target = ''/system''"
      have "length (drop (length stripped - 7) target) = 7 + length slashes"
        using that by (subst target) simp
      with eq False show False by simp
    qed
    then have "target_name target name = stripped @ name"
      using code by auto
    then show ?thesis
      using False sl by (simp add: stripped_def)
  qed
qed

lemma strlen_literal: "strlen ''out/system/'' = 11" "strlen ''/system'' = 7"
  by (simp_all add: strlen_def)

text \<open>
  Claim C10. The claim is that the path put in front of the name of a packed file is
  \<open>target_out_path\<close> without its trailing slashes and without a trailing \<open>/system\<close>, and that
  the absolute name is opened when the prefixed one cannot be. The code compares the whole
  remainder of \<open>target_out_path\<close>, trailing slashes included, with \<open>/system\<close>: for
  \<open>out/system/\<close> the component stays, the name built is
  \<open>out/system/system/etc/fs_config_files\<close>, and the file under \<open>out\<close> is not found.
\<close>

theorem fs_config_open_keeps_system_before_slash:
  "target_name ''out/system/'' (conf_name 0 False) = ''out/system/system/etc/fs_config_files'' \<and>
   claimed_target_prefix ''out/system/'' @ conf_name 0 False = ''out/system/etc/fs_config_files'' \<and>
   fs_config_open build_tree False 0 (Some ''out/system/'') = None \<and>
   open_file build_tree (claimed_target_prefix ''out/system/'' @ conf_name 0 False) = Some []"
proof -
  have conf: "conf_name 0 False = ''/system/etc/fs_config_files''"
    by (simp add: conf_name_def conf_def sys_conf_file_def)
  have strip: "strip_trailing_slashes ''out/system/'' (strlen ''out/system/'') = 10"
    by (simp add: strlen_def)
  have name: "target_name ''out/system/'' (conf_name 0 False) = ''out/system/system/etc/fs_config_files''"
    unfolding target_name_def strip conf by (simp add: strlen_def Let_def)
  have claimed: "claimed_target_prefix ''out/system/'' = ''out''"
    by (simp add: claimed_target_prefix_def)
  have name': "target_name ''out/system/'' ''/system/etc/fs_config_files'' =
      ''out/system/system/etc/fs_config_files''"
    using name by (simp only: conf)
  have "fs_config_open build_tree False 0 (Some ''out/system/'') = None"
    by (simp add: fs_config_open_def build_tree_def conf strlen_def name' Let_def)
  then show ?thesis
    using name claimed by (simp add: conf build_tree_def)
qed

section \<open>Properties of cold boot\<close>

lemma mod_between:
  fixes n k j :: nat
  assumes "k < j" "j < k + n"
  shows "j mod n \<noteq> k mod n"
proof
  assume eq: "j mod n = k mod n"
  have "k \<le> j" using assms(1) by simp
  with eq have "n dvd j - k"
    by (simp add: mod_eq_dvd_iff_nat)
  moreover have "0 < j - k" "j - k < n"
    using assms by simp_all
  ultimately show False
    using nat_dvd_not_less by blast
qed

lemma filter_stride_gap:
  fixes n k size0 :: nat
  shows "filter (\<lambda>j. j mod n = k mod n) [Suc k..<min size0 (k + n)] = []"
proof -
  have "j mod n \<noteq> k mod n" if "Suc k \<le> j" "j < k + n" for j
    using that mod_between [of k j n] by simp
  then show ?thesis
    by (auto simp: filter_empty_conv)
qed

lemma filter_stride:
  fixes n k size0 :: nat
  assumes "0 < n" "k < size0"
  shows "filter (\<lambda>j. j mod n = k mod n) [k..<size0] =
         k # filter (\<lambda>j. j mod n = k mod n) [k + n..<size0]"
proof -
  have "[k..<size0] = k # [Suc k..<size0]"
    using assms(2) by (simp add: upt_conv_Cons)
  moreover have "[Suc k..<size0] = [Suc k..<min size0 (k + n)] @ [min size0 (k + n)..<size0]"
  proof -
    have "Suc k \<le> min size0 (k + n)" "min size0 (k + n) \<le> size0"
      using assms by simp_all
    then show ?thesis
      by (metis le_Suc_ex upt_add_eq_append)
  qed
  moreover have "filter (\<lambda>j. j mod n = k mod n) [min size0 (k + n)..<size0] =
      filter (\<lambda>j. j mod n = k mod n) [k + n..<size0]"
    by (cases "k + n \<le> size0") (simp_all add: min_def)
  ultimately show ?thesis
    by (simp add: filter_stride_gap)
qed

lemma UeventHandlerMain_loop_spec:
  assumes n: "0 < unat N" and bound: "size0 + unat N \<le> 2 ^ 32"
  shows "UeventHandlerMain_loop size0 N i acc =
     Some (acc @ filter (\<lambda>j. j mod unat N = unat i mod unat N) [unat i..<size0])"
proof (induction "size0 - unat i" arbitrary: i acc rule: less_induct)
  case less
  show ?case
  proof (cases "unat i < size0")
    case True
    then have "unat i + unat N < 2 ^ 32"
      using bound by simp
    then have next_i: "unat (i + N) = unat i + unat N"
      by (simp add: unat_word_ariths)
    then have "size0 - unat (i + N) < size0 - unat i"
      using True n by simp
    then have "UeventHandlerMain_loop size0 N (i + N) (acc @ [unat i]) =
       Some ((acc @ [unat i]) @
             filter (\<lambda>j. j mod unat N = unat (i + N) mod unat N) [unat (i + N)..<size0])"
      by (rule less)
    moreover have "filter (\<lambda>j. j mod unat N = unat i mod unat N) [unat i..<size0] =
         unat i # filter (\<lambda>j. j mod unat N = unat i mod unat N) [unat i + unat N..<size0]"
      using n True by (rule filter_stride)
    ultimately show ?thesis
      using True by (subst UeventHandlerMain_loop.simps) (simp add: next_i)
  next
    case False
    then show ?thesis
      by (subst UeventHandlerMain_loop.simps) simp
  qed
qed

lemma filter_below_worker:
  fixes w n size0 :: nat
  assumes "w < n"
  shows "filter (\<lambda>j. j mod n = w) [0..<size0] = filter (\<lambda>j. j mod n = w) [w..<size0]"
proof (cases "w \<le> size0")
  case True
  then have "[0..<size0] = [0..<w] @ [w..<size0]"
    by (metis le_Suc_ex upt_add_eq_append zero_le)
  moreover have "filter (\<lambda>j. j mod n = w) [0..<w] = []"
    using assms by (auto simp: filter_empty_conv)
  ultimately show ?thesis by simp
next
  case False
  then have "filter (\<lambda>j. j mod n = w) [0..<size0] = []"
    using assms by (auto simp: filter_empty_conv)
  with False show ?thesis by simp
qed

lemma UeventHandlerMain_spec:
  assumes "process_num < N" and "length queue + unat N \<le> 2 ^ 32"
  shows "UeventHandlerMain queue process_num N =
     Some (filter (\<lambda>i. i mod unat N = unat process_num) [0..<length queue])"
proof -
  have w: "unat process_num < unat N"
    using assms(1) by (simp add: word_less_nat_alt)
  then have "unat process_num mod unat N = unat process_num"
    by simp
  moreover have "0 < unat N"
    using w by simp
  ultimately show ?thesis
    unfolding UeventHandlerMain_def
    using UeventHandlerMain_loop_spec [of N "length queue" process_num "[]"] assms(2)
      filter_below_worker [OF w, of "length queue"]
    by simp
qed

text \<open>
  Claim C6. For every worker count \<open>N \<ge> 1\<close> and every queue \<open>Q\<close> within the range of the
  \<open>unsigned int\<close> counter of the loop, \<open>|Q| + N \<le> 2 ^ 32\<close>, the worker with index \<open>w < N\<close>
  handles exactly the positions \<open>i < |Q|\<close> with \<open>i mod N = w\<close>, each once and in increasing
  order, and then exits; so every position of the queue is handled by exactly one worker. The
  bound is met in every run of the daemon: \<open>N\<close> is \<open>hardware_concurrency() ?: 4\<close>, with one
  forked process for each worker, and the queue is a vector held in memory.
\<close>

theorem UeventHandlerMain_partition:
  assumes "0 < N" and "length queue + unat N \<le> 2 ^ 32"
  shows "(\<forall>w. w < N \<longrightarrow> UeventHandlerMain queue w N =
            Some (filter (\<lambda>i. i mod unat N = unat w) [0..<length queue])) \<and>
         (\<forall>i. i < length queue \<longrightarrow>
            (\<exists>!w. w < N \<and> (\<exists>handled. UeventHandlerMain queue w N = Some handled \<and> i \<in> set handled)))"
proof -
  have spec: "UeventHandlerMain queue w N =
            Some (filter (\<lambda>i. i mod unat N = unat w) [0..<length queue])" if "w < N" for w
    using that assms(2) by (rule UeventHandlerMain_spec)
  have n: "0 < unat N"
    using assms(1) by (simp add: word_less_nat_alt)
  have "\<exists>!w. w < N \<and> (\<exists>handled. UeventHandlerMain queue w N = Some handled \<and> i \<in> set handled)"
    if i: "i < length queue" for i
  proof (rule ex1I [of _ "of_nat (i mod unat N)"])
    have "i mod unat N < unat N"
      using n by simp
    moreover have "unat N < 2 ^ 32"
      using unsigned_less [of N] by simp
    ultimately have u: "unat (of_nat (i mod unat N) :: 32 word) = i mod unat N"
      by (simp add: unat_of_nat)
    then have less: "(of_nat (i mod unat N) :: 32 word) < N"
      using n by (simp add: word_less_nat_alt)
    show "of_nat (i mod unat N) < N \<and>
       (\<exists>handled. UeventHandlerMain queue (of_nat (i mod unat N)) N = Some handled \<and> i \<in> set handled)"
      using less spec [OF less] u i by simp
  next
    fix w
    assume "w < N \<and> (\<exists>handled. UeventHandlerMain queue w N = Some handled \<and> i \<in> set handled)"
    then have "i mod unat N = unat w"
      using spec by auto
    then show "w = of_nat (i mod unat N)"
      by simp
  qed
  with spec show ?thesis by blast
qed

theorem UeventHandlerMain_partition_witness:
  "(0 :: 32 word) < 4 \<and> length ''abcdef'' + unat (4 :: 32 word) \<le> 2 ^ 32 \<and>
   UeventHandlerMain ''abcdef'' 1 4 = Some [1, 5]"
proof -
  have hyps: "(0 :: 32 word) < 4" "length ''abcdef'' + unat (4 :: 32 word) \<le> 2 ^ 32"
    by simp_all
  have "(1 :: 32 word) < 4"
    by simp
  with UeventHandlerMain_partition [OF hyps]
  have "UeventHandlerMain ''abcdef'' 1 4 =
      Some (filter (\<lambda>i. i mod unat (4 :: 32 word) = unat (1 :: 32 word)) [0..<length ''abcdef''])"
    by blast
  then show ?thesis
    by (simp add: upt_rec)
qed

text \<open>
  Outside that range the counter wraps: with \<open>2 ^ 32 - 1\<close> as the number of processes, a
  value that \<open>hardware_concurrency()\<close> does not take, and a queue of two uevents, worker 1
  handles position 1 and then position 0.
\<close>

lemma UeventHandlerMain_wraps:
  "UeventHandlerMain ''ab'' 0 4294967295 = Some [0] \<and>
   UeventHandlerMain ''ab'' 1 4294967295 = Some [1, 0]"
  unfolding UeventHandlerMain_def
  by (simp add: UeventHandlerMain_loop.simps)

lemma ForkSubProcesses_loop_trace:
  "\<exists>pids. trace (state_of (ForkSubProcesses_loop fork i s)) = trace s @ map Forked pids \<and>
     (\<forall>s'. ForkSubProcesses_loop fork i s = Done s' \<longrightarrow>
        subprocess_pids s' = subprocess_pids s \<union> set pids \<and>
        pids = map fork [unat i..<unat (num_handler_subprocesses s)] \<and>
        (\<forall>k. unat i \<le> k \<and> k < unat (num_handler_subprocesses s) \<longrightarrow> 0 < fork k))"
proof (induction "unat (num_handler_subprocesses s) - unat i" arbitrary: i s rule: less_induct)
  case less
  show ?case
  proof (cases "i < num_handler_subprocesses s")
    case False
    then have "ForkSubProcesses_loop fork i s = Done s"
      by (simp add: ForkSubProcesses_loop.simps [of fork i s])
    moreover have "[unat i..<unat (num_handler_subprocesses s)] = []"
      using False by (simp add: word_less_nat_alt)
    ultimately show ?thesis
      using False by (auto simp: word_less_nat_alt)
  next
    case True
    define pid where "pid = fork (unat i)"
    consider "pid < 0" | "pid = 0" | "0 < pid"
      by linarith
    then show ?thesis
    proof cases
      case 1
      then have "ForkSubProcesses_loop fork i s = Halt Fatal s"
        using True by (simp add: ForkSubProcesses_loop.simps [of fork i s] pid_def)
      then show ?thesis by simp
    next
      case 2
      then have "state_of (ForkSubProcesses_loop fork i s) = s \<and>
           (\<forall>s'. ForkSubProcesses_loop fork i s \<noteq> Done s')"
        using True
        by (simp add: ForkSubProcesses_loop.simps [of fork i s] pid_def split: option.splits)
      then show ?thesis by simp
    next
      case 3
      define s1 where "s1 = s\<lparr>subprocess_pids := insert pid (subprocess_pids s),
                      trace := trace s @ [Forked pid]\<rparr>"
      have step: "ForkSubProcesses_loop fork i s = ForkSubProcesses_loop fork (i + 1) s1"
        using True 3
        by (simp add: ForkSubProcesses_loop.simps [of fork i s] pid_def [symmetric] s1_def Let_def)
      have suc: "unat (i + 1) = Suc (unat i)"
        using True by (rule word_less_Suc_unat)
      have lt: "unat i < unat (num_handler_subprocesses s)"
        using True by (simp add: word_less_nat_alt)
      have num: "num_handler_subprocesses s1 = num_handler_subprocesses s"
        by (simp add: s1_def)
      have "unat (num_handler_subprocesses s1) - unat (i + 1) < unat (num_handler_subprocesses s) - unat i"
        using lt by (simp add: suc num)
      from less [OF this]
      obtain pids where pids: "trace (state_of (ForkSubProcesses_loop fork (i + 1) s1)) = trace s1 @ map Forked pids"
        "\<And>s'. ForkSubProcesses_loop fork (i + 1) s1 = Done s' \<Longrightarrow>
           subprocess_pids s' = subprocess_pids s1 \<union> set pids \<and>
           pids = map fork [unat (i + 1)..<unat (num_handler_subprocesses s1)] \<and>
           (\<forall>k. unat (i + 1) \<le> k \<and> k < unat (num_handler_subprocesses s1) \<longrightarrow> 0 < fork k)"
        by blast
      have "trace (state_of (ForkSubProcesses_loop fork i s)) = trace s @ map Forked (pid # pids)"
        using pids(1) by (simp add: step s1_def)
      moreover have "subprocess_pids s' = subprocess_pids s \<union> set (pid # pids) \<and>
        pid # pids = map fork [unat i..<unat (num_handler_subprocesses s)] \<and>
        (\<forall>k. unat i \<le> k \<and> k < unat (num_handler_subprocesses s) \<longrightarrow> 0 < fork k)"
        if "ForkSubProcesses_loop fork i s = Done s'" for s'
      proof -
        from that have "ForkSubProcesses_loop fork (i + 1) s1 = Done s'"
          by (simp add: step)
        from pids(2) [OF this] have *: "subprocess_pids s' = subprocess_pids s1 \<union> set pids"
          "pids = map fork [Suc (unat i)..<unat (num_handler_subprocesses s)]"
          "\<forall>k. Suc (unat i) \<le> k \<and> k < unat (num_handler_subprocesses s) \<longrightarrow> 0 < fork k"
          by (simp_all add: suc num)
        have "\<forall>k. unat i \<le> k \<and> k < unat (num_handler_subprocesses s) \<longrightarrow> 0 < fork k"
        proof (intro allI impI)
          fix k assume "unat i \<le> k \<and> k < unat (num_handler_subprocesses s)"
          then show "0 < fork k"
            using * 3 by (cases "k = unat i") (auto simp: pid_def)
        qed
        moreover have "subprocess_pids s1 = insert pid (subprocess_pids s)"
          by (simp add: s1_def)
        moreover have "[unat i..<unat (num_handler_subprocesses s)] =
            unat i # [Suc (unat i)..<unat (num_handler_subprocesses s)]"
          using lt by (simp add: upt_conv_Cons)
        ultimately show ?thesis
          using * by (simp add: pid_def)
      qed
      ultimately show ?thesis by blast
    qed
  qed
qed

lemma ForkSubProcesses_loop_Done:
  assumes "\<forall>k. unat i \<le> k \<and> k < unat (num_handler_subprocesses s) \<longrightarrow> 0 < fork k"
  shows "\<exists>s'. ForkSubProcesses_loop fork i s = Done s'"
  using assms
proof (induction "unat (num_handler_subprocesses s) - unat i" arbitrary: i s rule: less_induct)
  case less
  show ?case
  proof (cases "i < num_handler_subprocesses s")
    case False
    then show ?thesis
      by (simp add: ForkSubProcesses_loop.simps [of fork i s])
  next
    case True
    define s1 where "s1 = s\<lparr>subprocess_pids := insert (fork (unat i)) (subprocess_pids s),
                      trace := trace s @ [Forked (fork (unat i))]\<rparr>"
    have suc: "unat (i + 1) = Suc (unat i)"
      using True by (rule word_less_Suc_unat)
    have lt: "unat i < unat (num_handler_subprocesses s)"
      using True by (simp add: word_less_nat_alt)
    have num: "num_handler_subprocesses s1 = num_handler_subprocesses s"
      by (simp add: s1_def)
    have pos: "0 < fork (unat i)"
      using less.prems lt by simp
    have step: "ForkSubProcesses_loop fork i s = ForkSubProcesses_loop fork (i + 1) s1"
      using True pos by (simp add: ForkSubProcesses_loop.simps [of fork i s] s1_def Let_def)
    have "unat (num_handler_subprocesses s1) - unat (i + 1) < unat (num_handler_subprocesses s) - unat i"
      using lt by (simp add: suc num)
    moreover have "\<forall>k. unat (i + 1) \<le> k \<and> k < unat (num_handler_subprocesses s1) \<longrightarrow> 0 < fork k"
      using less.prems by (simp add: suc num)
    ultimately have "\<exists>s'. ForkSubProcesses_loop fork (i + 1) s1 = Done s'"
      by (rule less.hyps)
    then show ?thesis
      by (simp add: step)
  qed
qed

lemma WaitForSubProcesses_loop_trace:
  "\<exists>reaped. trace (state_of (WaitForSubProcesses_loop waits s)) =
       trace s @ map (\<lambda>pid. Reaped pid (Exited EXIT_SUCCESS)) reaped \<and>
     set reaped \<subseteq> subprocess_pids s \<and> distinct reaped \<and>
     (\<forall>pid \<in> set reaped. (pid, Exited EXIT_SUCCESS) \<in> set waits) \<and>
     (\<forall>s'. WaitForSubProcesses_loop waits s = Done s' \<longrightarrow> subprocess_pids s \<subseteq> set reaped)"
proof -
  define P where "P waits s reaped \<longleftrightarrow>
     trace (state_of (WaitForSubProcesses_loop waits s)) =
       trace s @ map (\<lambda>pid. Reaped pid (Exited EXIT_SUCCESS)) reaped \<and>
     set reaped \<subseteq> subprocess_pids s \<and> distinct reaped \<and>
     (\<forall>pid \<in> set reaped. (pid, Exited EXIT_SUCCESS) \<in> set waits) \<and>
     (\<forall>s'. WaitForSubProcesses_loop waits s = Done s' \<longrightarrow> subprocess_pids s \<subseteq> set reaped)"
    for waits and s :: "'a ColdBoot" and reaped
  have "\<exists>reaped. P waits s reaped"
  proof (induction waits arbitrary: s)
    case Nil
    have "P [] s []"
      by (simp add: P_def)
    then show ?case ..
  next
    case (Cons w waits)
    obtain pid status where w: "w = (pid, status)"
      by (cases w) auto
    from Cons [of s] obtain reaped0 where same: "P waits s reaped0" ..
    define s1 where "s1 = s\<lparr>subprocess_pids := subprocess_pids s - {pid},
                      trace := trace s @ [Reaped pid status]\<rparr>"
    from Cons [of s1] obtain reaped1 where erased: "P waits s1 reaped1" ..
    consider (empty) "subprocess_pids s = {}"
      | (skip) "subprocess_pids s \<noteq> {}" "pid = - 1 \<or> pid \<notin> subprocess_pids s \<or> status = Neither"
      | (reap) "subprocess_pids s \<noteq> {}" "pid \<noteq> - 1" "pid \<in> subprocess_pids s" "status = Exited EXIT_SUCCESS"
      | (fatal) "subprocess_pids s \<noteq> {}" "pid \<noteq> - 1" "pid \<in> subprocess_pids s"
          "(\<exists>code. status = Exited code \<and> code \<noteq> EXIT_SUCCESS) \<or> (\<exists>sig. status = Signaled sig)"
      by (cases status) auto
    then show ?case
    proof cases
      case empty
      then have "WaitForSubProcesses_loop (w # waits) s = Done s"
        by (simp add: w)
      then have "P (w # waits) s []"
        using empty by (simp add: P_def)
      then show ?thesis ..
    next
      case skip
      then have step: "WaitForSubProcesses_loop (w # waits) s = WaitForSubProcesses_loop waits s"
        by (auto simp: w)
      have "P (w # waits) s reaped0"
        using same unfolding P_def step by simp
      then show ?thesis ..
    next
      case reap
      then have step: "WaitForSubProcesses_loop (w # waits) s = WaitForSubProcesses_loop waits s1"
        by (simp add: w s1_def)
      have s1: "trace s1 = trace s @ [Reaped pid (Exited EXIT_SUCCESS)]"
        "subprocess_pids s1 = subprocess_pids s - {pid}"
        by (simp_all add: s1_def reap(4))
      from erased have e: "trace (state_of (WaitForSubProcesses_loop waits s1)) =
          trace s1 @ map (\<lambda>pid. Reaped pid (Exited EXIT_SUCCESS)) reaped1"
        "set reaped1 \<subseteq> subprocess_pids s1" "distinct reaped1"
        "\<forall>pid \<in> set reaped1. (pid, Exited EXIT_SUCCESS) \<in> set waits"
        "\<forall>s'. WaitForSubProcesses_loop waits s1 = Done s' \<longrightarrow> subprocess_pids s1 \<subseteq> set reaped1"
        unfolding P_def by simp_all
      have "trace (state_of (WaitForSubProcesses_loop (w # waits) s)) =
          trace s @ map (\<lambda>pid. Reaped pid (Exited EXIT_SUCCESS)) (pid # reaped1)"
        unfolding step e(1) s1(1) by simp
      moreover have "set (pid # reaped1) \<subseteq> subprocess_pids s"
        using e(2) reap(3) unfolding s1(2) by auto
      moreover have "distinct (pid # reaped1)"
        using e(2,3) unfolding s1(2) by auto
      moreover have "\<forall>p \<in> set (pid # reaped1). (p, Exited EXIT_SUCCESS) \<in> set (w # waits)"
        using e(4) reap(4) by (simp add: w)
      moreover have "\<forall>s'. WaitForSubProcesses_loop (w # waits) s = Done s' \<longrightarrow>
          subprocess_pids s \<subseteq> set (pid # reaped1)"
        using e(5) unfolding step s1(2) by auto
      ultimately have "P (w # waits) s (pid # reaped1)"
        unfolding P_def by (intro conjI)
      then show ?thesis ..
    next
      case fatal
      then have "WaitForSubProcesses_loop (w # waits) s = Halt Fatal s"
        by (auto simp: w)
      then have "P (w # waits) s []"
        by (simp add: P_def)
      then show ?thesis ..
    qed
  qed
  then show ?thesis
    unfolding P_def .
qed

lemma no_open_in_forks [simp]: "filter is_open_marker (map Forked pids) = []"
  by (induction pids) auto

lemma no_open_in_reaps [simp]: "filter is_open_marker (map (\<lambda>pid. Reaped pid status) pids) = []"
  by (induction pids) auto

lemma no_creation_in_forks [simp]: "filter creates_marker (map Forked pids) = []"
  by (induction pids) auto

lemma no_creation_in_reaps [simp]: "filter creates_marker (map (\<lambda>pid. Reaped pid status) pids) = []"
  by (induction pids) auto

lemma Run_trace:
  fixes env :: "'u environment"
  defines "forks \<equiv> map (fork_result env) [0..<unat (num_handler_subprocesses (ColdBoot_init env))]"
  shows "case Run env (ColdBoot_init env) of
     Done s \<Rightarrow>
       (\<exists>reaped.
          trace s = map Forked forks @ [Restorecon_sys] @
                    map (\<lambda>pid. Reaped pid (Exited EXIT_SUCCESS)) reaped @
                    [Open_marker {O_WRONLY, O_CREAT, O_CLOEXEC} 0 (open_result env),
                     Close (open_result env)] \<and>
          set reaped = set forks \<and> distinct reaped \<and>
          (\<forall>pid \<in> set reaped. (pid, Exited EXIT_SUCCESS) \<in> set (wait_results env)))
   | Halt h s \<Rightarrow>
       (\<exists>pids. trace s = map Forked pids) \<or>
       (\<exists>pids reaped. trace s = map Forked pids @ [Restorecon_sys] @
                          map (\<lambda>pid. Reaped pid (Exited EXIT_SUCCESS)) reaped)"
proof -
  define s0 where "s0 = RegenerateUevents env (ColdBoot_init env)"
  have s0: "trace s0 = []" "subprocess_pids s0 = {}"
    "num_handler_subprocesses s0 = num_handler_subprocesses (ColdBoot_init env)"
    by (simp_all add: s0_def RegenerateUevents_def ColdBoot_init_def)
  from ForkSubProcesses_loop_trace [of "fork_result env" 0 s0]
  obtain pids where pids:
    "trace (state_of (ForkSubProcesses_loop (fork_result env) 0 s0)) = trace s0 @ map Forked pids"
    "\<forall>s'. ForkSubProcesses_loop (fork_result env) 0 s0 = Done s' \<longrightarrow>
        subprocess_pids s' = subprocess_pids s0 \<union> set pids \<and>
        pids = map (fork_result env) [unat (0 :: 32 word)..<unat (num_handler_subprocesses s0)] \<and>
        (\<forall>k. unat (0 :: 32 word) \<le> k \<and> k < unat (num_handler_subprocesses s0) \<longrightarrow> 0 < fork_result env k)"
    by (elim exE conjE)
  have forked: "trace (state_of (ForkSubProcesses env s0)) = map Forked pids"
    using pids(1) by (simp add: ForkSubProcesses_def s0(1))
  have returned: "subprocess_pids s' = set forks \<and> pids = forks"
    if "ForkSubProcesses env s0 = Done s'" for s'
  proof -
    from that have "ForkSubProcesses_loop (fork_result env) 0 s0 = Done s'"
      by (simp add: ForkSubProcesses_def)
    with pids(2) have "subprocess_pids s' = subprocess_pids s0 \<union> set pids"
      "pids = map (fork_result env) [unat (0 :: 32 word)..<unat (num_handler_subprocesses s0)]"
      by blast+
    then show ?thesis
      by (simp add: s0 forks_def)
  qed
  show ?thesis
  proof (cases "ForkSubProcesses env s0")
    case (Halt h s1)
    then have run: "Run env (ColdBoot_init env) = Halt h s1"
      by (simp add: Run_def s0_def)
    have "trace s1 = map Forked pids"
      using forked Halt by simp
    then have "\<exists>pids. trace s1 = map Forked pids" ..
    then show ?thesis
      by (simp add: run)
  next
    case (Done s1)
    then have s1: "trace s1 = map Forked forks" "subprocess_pids s1 = set forks"
      using forked returned [OF Done] by simp_all
    define s2 where "s2 = DoRestoreCon s1"
    have s2: "trace s2 = map Forked forks @ [Restorecon_sys]" "subprocess_pids s2 = set forks"
      by (simp_all add: s2_def DoRestoreCon_def s1)
    from WaitForSubProcesses_loop_trace [of "wait_results env" s2]
    obtain reaped where reaped:
      "trace (state_of (WaitForSubProcesses_loop (wait_results env) s2)) =
         trace s2 @ map (\<lambda>pid. Reaped pid (Exited EXIT_SUCCESS)) reaped"
      "set reaped \<subseteq> subprocess_pids s2" "distinct reaped"
      "\<forall>pid \<in> set reaped. (pid, Exited EXIT_SUCCESS) \<in> set (wait_results env)"
      "\<forall>s'. WaitForSubProcesses_loop (wait_results env) s2 = Done s' \<longrightarrow>
         subprocess_pids s2 \<subseteq> set reaped"
      by (elim exE conjE)
    have waited: "trace (state_of (WaitForSubProcesses env s2)) =
        map Forked forks @ [Restorecon_sys] @ map (\<lambda>pid. Reaped pid (Exited EXIT_SUCCESS)) reaped"
      using reaped(1) by (simp add: WaitForSubProcesses_def s2(1))
    show ?thesis
    proof (cases "WaitForSubProcesses env s2")
      case (Halt h s3)
      then have run: "Run env (ColdBoot_init env) = Halt h s3"
        using Done by (simp add: Run_def s0_def s2_def)
      have "trace s3 = map Forked forks @ [Restorecon_sys] @
          map (\<lambda>pid. Reaped pid (Exited EXIT_SUCCESS)) reaped"
        using waited Halt by simp
      then have "\<exists>pids reaped. trace s3 = map Forked pids @ [Restorecon_sys] @
          map (\<lambda>pid. Reaped pid (Exited EXIT_SUCCESS)) reaped"
        by (intro exI)
      then show ?thesis
        by (simp add: run)
    next
      case wait: (Done s3)
      then have run: "Run env (ColdBoot_init env) =
          Done (s3\<lparr>trace := trace s3 @
                       [Open_marker {O_WRONLY, O_CREAT, O_CLOEXEC} 0 (open_result env),
                        Close (open_result env)]\<rparr>)"
        using Done by (simp add: Run_def s0_def s2_def)
      have s3: "trace s3 = map Forked forks @ [Restorecon_sys] @
          map (\<lambda>pid. Reaped pid (Exited EXIT_SUCCESS)) reaped"
        using waited wait by simp
      have "WaitForSubProcesses_loop (wait_results env) s2 = Done s3"
        using wait by (simp add: WaitForSubProcesses_def)
      with reaped(5) have "subprocess_pids s2 \<subseteq> set reaped"
        by blast
      with reaped(2) have all: "set reaped = set forks"
        unfolding s2(2) by (rule equalityI)
      have "trace s3 @ [Open_marker {O_WRONLY, O_CREAT, O_CLOEXEC} 0 (open_result env),
                        Close (open_result env)] =
          map Forked forks @ [Restorecon_sys] @
          map (\<lambda>pid. Reaped pid (Exited EXIT_SUCCESS)) reaped @
          [Open_marker {O_WRONLY, O_CREAT, O_CLOEXEC} 0 (open_result env),
           Close (open_result env)] \<and>
         set reaped = set forks \<and> distinct reaped \<and>
         (\<forall>pid \<in> set reaped. (pid, Exited EXIT_SUCCESS) \<in> set (wait_results env))"
        using all reaped(3,4) by (simp add: s3)
      then have "\<exists>reaped. trace s3 @ [Open_marker {O_WRONLY, O_CREAT, O_CLOEXEC} 0 (open_result env),
                        Close (open_result env)] =
          map Forked forks @ [Restorecon_sys] @
          map (\<lambda>pid. Reaped pid (Exited EXIT_SUCCESS)) reaped @
          [Open_marker {O_WRONLY, O_CREAT, O_CLOEXEC} 0 (open_result env),
           Close (open_result env)] \<and>
         set reaped = set forks \<and> distinct reaped \<and>
         (\<forall>pid \<in> set reaped. (pid, Exited EXIT_SUCCESS) \<in> set (wait_results env))" ..
      then show ?thesis
        by (simp add: run)
    qed
  qed
qed

text \<open>
  Claim C3, as amended. In every execution of \<open>ColdBoot::Run\<close> that returns, the completion
  marker is opened exactly once, with the flags \<open>O_WRONLY | O_CREAT | O_CLOEXEC\<close> and mode 0,
  as the last call but the \<open>close\<close> of its result: after the \<open>fork\<close> of every worker, after
  the recursive restorecon of \<open>/sys\<close> has returned, and after every forked worker has been
  reaped with exit status 0 - the pids reaped are exactly the pids that the calls of \<open>fork\<close>
  returned, each is reaped once, and each by a \<open>waitpid\<close> that returned it with the status of
  an exit with \<open>EXIT_SUCCESS\<close>. That \<open>open\<close> creates the marker unless it fails. In an
  execution that does not return - a \<open>fork\<close> fails or a subprocess fails and the process
  aborts, \<open>waitpid\<close> returns no more, or the process is a forked child - the marker is not
  opened at all.
\<close>

theorem Run_opens_marker_last:
  fixes env :: "'u environment"
  defines "forks \<equiv> map (fork_result env) [0..<unat (num_handler_subprocesses (ColdBoot_init env))]"
  shows "case Run env (ColdBoot_init env) of
     Done s \<Rightarrow>
       (\<exists>reaped.
          trace s = map Forked forks @ [Restorecon_sys] @
                    map (\<lambda>pid. Reaped pid (Exited EXIT_SUCCESS)) reaped @
                    [Open_marker {O_WRONLY, O_CREAT, O_CLOEXEC} 0 (open_result env),
                     Close (open_result env)] \<and>
          set reaped = set forks \<and> distinct reaped \<and>
          (\<forall>pid \<in> set reaped. (pid, Exited EXIT_SUCCESS) \<in> set (wait_results env))) \<and>
       length (filter is_open_marker (trace s)) = 1 \<and>
       filter creates_marker (trace s) =
         (if 0 \<le> open_result env
          then [Open_marker {O_WRONLY, O_CREAT, O_CLOEXEC} 0 (open_result env)] else [])
   | Halt h s \<Rightarrow> filter is_open_marker (trace s) = [] \<and> filter creates_marker (trace s) = []"
proof (cases "Run env (ColdBoot_init env)")
  case (Done s)
  with Run_trace [of env] obtain reaped where reaped:
    "trace s = map Forked forks @ [Restorecon_sys] @
               map (\<lambda>pid. Reaped pid (Exited EXIT_SUCCESS)) reaped @
               [Open_marker {O_WRONLY, O_CREAT, O_CLOEXEC} 0 (open_result env),
                Close (open_result env)]"
    "set reaped = set forks" "distinct reaped"
    "\<forall>pid \<in> set reaped. (pid, Exited EXIT_SUCCESS) \<in> set (wait_results env)"
    unfolding forks_def by auto
  have "length (filter is_open_marker (trace s)) = 1"
    by (simp add: reaped(1))
  moreover have "filter creates_marker (trace s) =
         (if 0 \<le> open_result env
          then [Open_marker {O_WRONLY, O_CREAT, O_CLOEXEC} 0 (open_result env)] else [])"
    by (simp add: reaped(1))
  ultimately show ?thesis
    using Done reaped by auto
next
  case (Halt h s)
  with Run_trace [of env] show ?thesis
    by auto
qed

theorem Run_opens_marker_last_witness:
  "\<exists>s. Run boot2 (ColdBoot_init boot2) = Done s \<and>
     trace s = [Forked 101, Forked 102, Restorecon_sys, Reaped 102 (Exited 0), Reaped 101 (Exited 0),
                Open_marker {O_WRONLY, O_CREAT, O_CLOEXEC} 0 5, Close 5] \<and>
     length (filter is_open_marker (trace s)) = 1 \<and>
     filter creates_marker (trace s) = [Open_marker {O_WRONLY, O_CREAT, O_CLOEXEC} 0 5]"
proof -
  have "\<exists>s. Run boot2 (ColdBoot_init boot2) = Done s \<and>
     trace s = [Forked 101, Forked 102, Restorecon_sys, Reaped 102 (Exited 0), Reaped 101 (Exited 0),
                Open_marker {O_WRONLY, O_CREAT, O_CLOEXEC} 0 5, Close 5]"
    by (simp add: Run_def boot2_def ColdBoot_init_def RegenerateUevents_def
        ForkSubProcesses_def ForkSubProcesses_loop.simps DoRestoreCon_def WaitForSubProcesses_def
        EXIT_SUCCESS_def Let_def)
  then obtain s where s: "Run boot2 (ColdBoot_init boot2) = Done s"
    "trace s = [Forked 101, Forked 102, Restorecon_sys, Reaped 102 (Exited 0), Reaped 101 (Exited 0),
                Open_marker {O_WRONLY, O_CREAT, O_CLOEXEC} 0 5, Close 5]"
    by blast
  have "open_result boot2 = 5"
    by (simp add: boot2_def)
  with Run_opens_marker_last [of boot2] s(1)
  have "length (filter is_open_marker (trace s)) = 1 \<and>
     filter creates_marker (trace s) = [Open_marker {O_WRONLY, O_CREAT, O_CLOEXEC} 0 5]"
    by simp
  with s show ?thesis by blast
qed

lemma Run_boot2:
  "ueventd_main (boot2\<lparr>open_result := r\<rparr>) =
     (Polling, [Forked 101, Forked 102, Restorecon_sys, Reaped 102 (Exited 0), Reaped 101 (Exited 0),
                Open_marker {O_WRONLY, O_CREAT, O_CLOEXEC} 0 r, Close r])"
  by (simp add: ueventd_main_def Run_def boot2_def ColdBoot_init_def RegenerateUevents_def
      ForkSubProcesses_def ForkSubProcesses_loop.simps DoRestoreCon_def WaitForSubProcesses_def
      EXIT_SUCCESS_def Let_def)

lemma Run_fork_fails:
  "ueventd_main (boot2\<lparr>fork_result := (\<lambda>k. if k = 1 then - 1 else 101)\<rparr>) =
     (Halted Fatal, [Forked 101])"
  by (simp add: ueventd_main_def Run_def boot2_def ColdBoot_init_def RegenerateUevents_def
      ForkSubProcesses_def ForkSubProcesses_loop.simps DoRestoreCon_def WaitForSubProcesses_def
      EXIT_SUCCESS_def Let_def)

lemma Run_child:
  "ueventd_main (boot2\<lparr>fork_result := (\<lambda>k. if k = 1 then 0 else 101)\<rparr>) =
     (Halted (Child_exit [1]), [Forked 101])"
  by (simp add: ueventd_main_def Run_def boot2_def ColdBoot_init_def RegenerateUevents_def
      ForkSubProcesses_def ForkSubProcesses_loop.simps DoRestoreCon_def WaitForSubProcesses_def
      EXIT_SUCCESS_def Let_def UeventHandlerMain_def UeventHandlerMain_loop.simps)

lemma ueventd_main_open_result:
  "fst (ueventd_main (env\<lparr>open_result := r\<rparr>)) = fst (ueventd_main env)"
  by (simp add: ueventd_main_def Run_def ForkSubProcesses_def WaitForSubProcesses_def
      ColdBoot_init_def RegenerateUevents_def split: result.splits)

text \<open>
  Claim C8, as amended. A failure to create the completion marker is ignored: how the daemon
  goes on does not depend on the value that \<open>open\<close> returns, and whenever \<open>Run\<close> gets as far as
  the \<open>open\<close> of the marker the daemon continues into the steady-state loop.
\<close>

theorem marker_failure_is_ignored:
  "(\<forall>r. fst (ueventd_main (env\<lparr>open_result := r\<rparr>)) = fst (ueventd_main env)) \<and>
   (filter is_open_marker (snd (ueventd_main env)) \<noteq> [] \<longrightarrow> fst (ueventd_main env) = Polling)"
proof -
  have "fst (ueventd_main env) = Polling" if "filter is_open_marker (snd (ueventd_main env)) \<noteq> []"
  proof (cases "marker_found env")
    case True
    then show ?thesis by (simp add: ueventd_main_def)
  next
    case False
    show ?thesis
    proof (cases "Run env (ColdBoot_init env)")
      case (Done s)
      then show ?thesis using False by (simp add: ueventd_main_def)
    next
      case (Halt h s)
      then have "filter is_open_marker (trace s) = []"
        using Run_trace [of env] by auto
      then show ?thesis
        using that False Halt by (simp add: ueventd_main_def)
    qed
  qed
  then show ?thesis
    by (simp add: ueventd_main_open_result)
qed

theorem marker_failure_is_ignored_witness:
  "filter is_open_marker (snd (ueventd_main (boot2\<lparr>open_result := - 1\<rparr>))) \<noteq> [] \<and>
   fst (ueventd_main (boot2\<lparr>open_result := - 1\<rparr>)) = Polling"
proof -
  have "filter is_open_marker (snd (ueventd_main (boot2\<lparr>open_result := - 1\<rparr>))) \<noteq> []"
    by (simp add: Run_boot2)
  with marker_failure_is_ignored [of "boot2\<lparr>open_result := - 1\<rparr>"] show ?thesis
    by blast
qed

text \<open>
  The claim as stated, that the failure aborts the daemon, fails: with an \<open>open\<close> that returns
  -1, the result is passed to \<open>close\<close> and the daemon polls.
\<close>

theorem marker_failure_not_fatal:
  "open_result (boot2\<lparr>open_result := - 1\<rparr>) < 0 \<and>
   ueventd_main (boot2\<lparr>open_result := - 1\<rparr>) =
     (Polling, [Forked 101, Forked 102, Restorecon_sys, Reaped 102 (Exited 0), Reaped 101 (Exited 0),
                Open_marker {O_WRONLY, O_CREAT, O_CLOEXEC} 0 (- 1), Close (- 1)])"
  by (simp add: Run_boot2)

text \<open>
  The claim as stated, that every execution creates the marker exactly once, fails: when the
  second \<open>fork\<close> fails the process aborts after one \<open>fork\<close> and the marker is never opened;
  and when the \<open>open\<close> itself fails, \<open>Run\<close> returns with no marker created.
\<close>

theorem Run_without_marker:
  "trace (state_of (Run (boot2\<lparr>fork_result := (\<lambda>k. if k = 1 then - 1 else 101)\<rparr>)
      (ColdBoot_init (boot2\<lparr>fork_result := (\<lambda>k. if k = 1 then - 1 else 101)\<rparr>)))) = [Forked 101] \<and>
   filter creates_marker
     (trace (state_of (Run (boot2\<lparr>open_result := - 1\<rparr>) (ColdBoot_init (boot2\<lparr>open_result := - 1\<rparr>))))) = [] \<and>
   trace (state_of (Run (boot2\<lparr>open_result := - 1\<rparr>) (ColdBoot_init (boot2\<lparr>open_result := - 1\<rparr>)))) =
     [Forked 101, Forked 102, Restorecon_sys, Reaped 102 (Exited 0), Reaped 101 (Exited 0),
      Open_marker {O_WRONLY, O_CREAT, O_CLOEXEC} 0 (- 1), Close (- 1)]"
  by (simp add: Run_def boot2_def ColdBoot_init_def RegenerateUevents_def
      ForkSubProcesses_def ForkSubProcesses_loop.simps DoRestoreCon_def WaitForSubProcesses_def
      EXIT_SUCCESS_def Let_def)

text \<open>
  Claim C7, as amended. The number of worker subprocesses is the hardware concurrency when
  that is not 0, and 4 when it is 0; it is at least 1. Whenever \<open>ForkSubProcesses\<close> returns in
  the coordinator it has forked exactly that many children, and it does return when every
  \<open>fork\<close> gives the pid of a child.
\<close>

theorem ForkSubProcesses_count:
  fixes env :: "'u environment"
  defines "N \<equiv> (if hardware_concurrency env = 0 then 4 else hardware_concurrency env)"
  shows "num_handler_subprocesses (ColdBoot_init env) = N \<and> 1 \<le> unat N \<and>
    (\<forall>s. ForkSubProcesses env (RegenerateUevents env (ColdBoot_init env)) = Done s \<longrightarrow>
       trace s = map (\<lambda>k. Forked (fork_result env k)) [0..<unat N]) \<and>
    ((\<forall>k. k < unat N \<longrightarrow> 0 < fork_result env k) \<longrightarrow>
       (\<exists>s. ForkSubProcesses env (RegenerateUevents env (ColdBoot_init env)) = Done s))"
proof -
  define s0 where "s0 = RegenerateUevents env (ColdBoot_init env)"
  have s0: "trace s0 = []" "num_handler_subprocesses s0 = N"
    by (simp_all add: s0_def RegenerateUevents_def ColdBoot_init_def N_def)
  have N: "num_handler_subprocesses (ColdBoot_init env) = N"
    by (simp add: ColdBoot_init_def N_def)
  have "N \<noteq> 0"
    by (simp add: N_def)
  then have pos: "1 \<le> unat N"
    by (simp add: unat_gt_0 Suc_leI)
  have "trace s = map (\<lambda>k. Forked (fork_result env k)) [0..<unat N]"
    if "ForkSubProcesses env s0 = Done s" for s
    using ForkSubProcesses_loop_trace [of "fork_result env" 0 s0] that s0
    unfolding ForkSubProcesses_def by auto
  moreover have "\<exists>s. ForkSubProcesses env s0 = Done s"
    if "\<forall>k. k < unat N \<longrightarrow> 0 < fork_result env k"
    unfolding ForkSubProcesses_def
    by (rule ForkSubProcesses_loop_Done) (use that s0 in simp)
  ultimately show ?thesis
    using N pos unfolding s0_def by blast
qed

theorem ForkSubProcesses_count_witness:
  "(\<exists>s. ForkSubProcesses boot2 (RegenerateUevents boot2 (ColdBoot_init boot2)) = Done s \<and>
        trace s = [Forked 101, Forked 102])"
proof -
  have "hardware_concurrency boot2 = 2" "\<forall>k. 0 < fork_result boot2 k"
    by (simp_all add: boot2_def)
  with ForkSubProcesses_count [of boot2] show ?thesis
    by (auto simp: upt_rec boot2_def)
qed

text \<open>
  The claim as stated, \<open>max(hardware_concurrency, 4)\<close> children and so at least 4, fails for a
  hardware concurrency of 1: one child is forked.
\<close>

theorem forks_one_child:
  "num_handler_subprocesses (ColdBoot_init (boot2\<lparr>hardware_concurrency := 1\<rparr>)) = 1 \<and>
   max (hardware_concurrency (boot2\<lparr>hardware_concurrency := 1\<rparr>)) 4 = 4 \<and>
   trace (state_of (ForkSubProcesses (boot2\<lparr>hardware_concurrency := 1\<rparr>)
     (RegenerateUevents (boot2\<lparr>hardware_concurrency := 1\<rparr>)
        (ColdBoot_init (boot2\<lparr>hardware_concurrency := 1\<rparr>))))) = [Forked 101]"
  by (simp add: boot2_def ColdBoot_init_def RegenerateUevents_def
      ForkSubProcesses_def ForkSubProcesses_loop.simps Let_def)

end
